theory Spec2Isabelle
  imports Main "HOL-Library.Monad_Syntax"
begin

section \<open>Memory: arrays allocated with new[] and released with delete[]\<close>

text \<open>
  The container of \<^verbatim>\<open>src/vector.h\<close> owns a raw array (\<^verbatim>\<open>pointer values\<close>) that it
  allocates with \<^verbatim>\<open>new value_type[n]\<close> and releases with \<^verbatim>\<open>delete[]\<close>. Two containers
  are independent only because their arrays are different allocations, and an iterator is
  a raw pointer into one of them, so the arrays live in an explicit store.

  A pointer names an array and an element offset in it (\<open>Ptr b off\<close>), or is the null
  pointer advanced by some number of elements (\<open>Null n\<close>; \<open>Null 0\<close> is \<^verbatim>\<open>nullptr\<close>). The
  store lists every array ever allocated, by its number: \<open>Some slots\<close> while it is live,
  \<open>None\<close> once it has been deleted. A slot is \<open>None\<close> while it holds the garbage
  \<^verbatim>\<open>new value_type[n]\<close> leaves there (the source's comment: "no {}, garbage for speed") and
  \<open>Some x\<close> once \<open>x\<close> has been assigned to it. The store also records every location
  that has been read, newest first.

  The model follows what the compiled program does where ISO C++ leaves the behaviour
  undefined. Reading a location that is not a slot of a live array (past the end of the
  array, or in an array that has been deleted) yields garbage, as reading a slot that was
  never assigned does, and copying garbage copies it. Pointer arithmetic is arithmetic on
  the offset. An operation on the store that returns \<open>None\<close> has no result: reading or
  writing through a pointer derived from the null pointer, and writing outside a live
  array.

  Sizes are \<^verbatim>\<open>std::size_t\<close> in the source and natural numbers here. The only sum the
  source computes is \<^verbatim>\<open>max_sz + max_sz / 2 + 1\<close>, for the capacity \<^verbatim>\<open>max_sz\<close> of an array
  that exists; \<^verbatim>\<open>new[]\<close> gives no array of more than \<open>2 ^ 63 - 1\<close> bytes on a 64-bit
  target, so that sum stays below \<open>2 ^ 64\<close> and does not wrap around. Allocation is taken
  to succeed: \<^verbatim>\<open>std::bad_alloc\<close> is not part of the model.
\<close>

datatype ptr = Null nat | Ptr nat nat

type_synonym 'a slot = "'a option"

record 'a mem =
  arrays :: "'a slot list option list"
  reads :: "(nat \<times> nat) list"

definition lookup :: "'a mem \<Rightarrow> nat \<Rightarrow> 'a slot list option" where
  "lookup m b = (if b < length (arrays m) then arrays m ! b else None)"

text \<open>\<^verbatim>\<open>new value_type[n]\<close>: a fresh array of \<open>n\<close> slots holding garbage.\<close>

definition new_array :: "nat \<Rightarrow> 'a mem \<Rightarrow> ptr \<times> 'a mem" where
  "new_array n m =
     (Ptr (length (arrays m)) 0, m\<lparr>arrays := arrays m @ [Some (replicate n None)]\<rparr>)"

text \<open>\<^verbatim>\<open>delete[] p\<close>: nothing for the null pointer, else \<open>p\<close> is the start of a live array.\<close>

definition delete_array :: "ptr \<Rightarrow> 'a mem \<Rightarrow> 'a mem option" where
  "delete_array p m =
     (case p of
        Null n \<Rightarrow> (if n = 0 then Some m else None)
      | Ptr b off \<Rightarrow>
          (if off = 0 \<and> lookup m b \<noteq> None
           then Some (m\<lparr>arrays := (arrays m)[b := None]\<rparr>)
           else None))"

text \<open>
  What is at offset \<open>j\<close> of array \<open>b\<close>: the slot if the array is live and has one there,
  garbage otherwise.
\<close>

definition slot_at :: "'a mem \<Rightarrow> nat \<Rightarrow> nat \<Rightarrow> 'a slot" where
  "slot_at m b j =
     (case lookup m b of
        None \<Rightarrow> None
      | Some buf \<Rightarrow> (if j < length buf then buf ! j else None))"

text \<open>Reading \<^verbatim>\<open>p[i]\<close> and assigning to \<^verbatim>\<open>p[i]\<close>.\<close>

definition load :: "ptr \<Rightarrow> nat \<Rightarrow> 'a mem \<Rightarrow> ('a slot \<times> 'a mem) option" where
  "load p i m =
     (case p of
        Null n \<Rightarrow> None
      | Ptr b off \<Rightarrow> Some (slot_at m b (off + i), m\<lparr>reads := (b, off + i) # reads m\<rparr>))"

definition store :: "ptr \<Rightarrow> nat \<Rightarrow> 'a slot \<Rightarrow> 'a mem \<Rightarrow> 'a mem option" where
  "store p i x m =
     (case p of
        Null n \<Rightarrow> None
      | Ptr b off \<Rightarrow>
          (case lookup m b of
             None \<Rightarrow> None
           | Some buf \<Rightarrow>
               (if off + i < length buf
                then Some (m\<lparr>arrays := (arrays m)[b := Some (buf[off + i := x])]\<rparr>)
                else None)))"

text \<open>
  Pointer arithmetic: \<^verbatim>\<open>p + n\<close> advances the offset. The difference of two pointers is
  the difference of their offsets when both are derived from the null pointer or both
  point into the same array; otherwise it depends on where the arrays are and has no
  result here.
\<close>

definition ptr_add :: "ptr \<Rightarrow> nat \<Rightarrow> ptr" where
  "ptr_add p n =
     (case p of
        Null k \<Rightarrow> Null (k + n)
      | Ptr b off \<Rightarrow> Ptr b (off + n))"

definition ptr_diff :: "ptr \<Rightarrow> ptr \<Rightarrow> int option" where
  "ptr_diff l r =
     (case (l, r) of
        (Null i, Null j) \<Rightarrow> Some (int i - int j)
      | (Ptr b i, Ptr c j) \<Rightarrow> (if b = c then Some (int i - int j) else None)
      | _ \<Rightarrow> None)"

section \<open>Iterator and ConstIterator\<close>

text \<open>
  Both classes hold one raw pointer, null when default-constructed. The operators that
  change the cursor return the updated cursor next to their result.
\<close>

datatype iterator = Iterator ptr

datatype const_iterator = ConstIterator ptr

definition iterator_default :: iterator where
  "iterator_default = Iterator (Null 0)"

definition const_iterator_default :: const_iterator where
  "const_iterator_default = ConstIterator (Null 0)"

fun iterator_ptr :: "iterator \<Rightarrow> ptr" where
  "iterator_ptr (Iterator p) = p"

fun const_iterator_ptr :: "const_iterator \<Rightarrow> ptr" where
  "const_iterator_ptr (ConstIterator p) = p"

text \<open>\<^verbatim>\<open>operator++()\<close>: \<^verbatim>\<open>++ptr; return *this;\<close>\<close>

definition iterator_pre_inc :: "iterator \<Rightarrow> iterator" where
  "iterator_pre_inc it = Iterator (ptr_add (iterator_ptr it) 1)"

definition const_iterator_pre_inc :: "const_iterator \<Rightarrow> const_iterator" where
  "const_iterator_pre_inc it = ConstIterator (ptr_add (const_iterator_ptr it) 1)"

text \<open>
  \<^verbatim>\<open>operator++(int)\<close>: \<^verbatim>\<open>iterator old; operator++(); return old;\<close> The result is the
  returned iterator and the cursor after the call.
\<close>

definition iterator_post_inc :: "iterator \<Rightarrow> iterator \<times> iterator" where
  "iterator_post_inc it =
     (let old = iterator_default;
          it' = iterator_pre_inc it
      in (old, it'))"

definition const_iterator_post_inc :: "const_iterator \<Rightarrow> const_iterator \<times> const_iterator" where
  "const_iterator_post_inc it =
     (let old = const_iterator_default;
          it' = const_iterator_pre_inc it
      in (old, it'))"

text \<open>
  \<^verbatim>\<open>Iterator::operator==(const const_iterator &)\<close>, \<^verbatim>\<open>ConstIterator::operator==\<close>, the
  conversion \<^verbatim>\<open>operator const_iterator()\<close> and the difference of two const iterators.
  An \<^verbatim>\<open>iterator\<close> compared with an \<^verbatim>\<open>iterator\<close> converts its right operand first.
\<close>

definition iterator_eq :: "iterator \<Rightarrow> const_iterator \<Rightarrow> bool" where
  "iterator_eq it other = (iterator_ptr it = const_iterator_ptr other)"

definition const_iterator_eq :: "const_iterator \<Rightarrow> const_iterator \<Rightarrow> bool" where
  "const_iterator_eq it other = (const_iterator_ptr it = const_iterator_ptr other)"

definition to_const_iterator :: "iterator \<Rightarrow> const_iterator" where
  "to_const_iterator it = ConstIterator (iterator_ptr it)"

definition const_iterator_minus :: "const_iterator \<Rightarrow> const_iterator \<Rightarrow> int option" where
  "const_iterator_minus lop rop = ptr_diff (const_iterator_ptr lop) (const_iterator_ptr rop)"

section \<open>The container\<close>

text \<open>
  The three data members of \<^verbatim>\<open>Vector\<close>. The member \<^verbatim>\<open>values\<close> is \<open>values_ptr\<close> here
  (\<open>values\<close> is a reserved word of Isabelle). The container object is passed to each
  member function and returned updated; the array it points to is in the store.
\<close>

record vec =
  sz :: nat
  max_sz :: nat
  values_ptr :: ptr

text \<open>Every exception of the source is a \<^verbatim>\<open>std::runtime_error\<close> with a message.\<close>

datatype exn = runtime_error string

text \<open>
  \<^verbatim>\<open>const_reference\<close> is \<^verbatim>\<open>const value_type &\<close>: what \<^verbatim>\<open>push_back\<close> and \<^verbatim>\<open>insert\<close> take.
  A reference refers to an object outside the store (a temporary or a variable of the
  caller), given by its value, or to the location at some offset of some array of the
  store, as the reference \<^verbatim>\<open>v[i]\<close> does. The callee reads it when the source does.
\<close>

datatype 'a const_reference = Object 'a | Element nat nat

definition read_ref :: "'a const_reference \<Rightarrow> 'a mem \<Rightarrow> ('a slot \<times> 'a mem) option" where
  "read_ref r m =
     (case r of
        Object x \<Rightarrow> Some (Some x, m)
      | Element b off \<Rightarrow> load (Ptr b off) 0 m)"

abbreviation EmptyContainerError :: exn where
  "EmptyContainerError \<equiv> runtime_error ''Vector is empty''"

abbreviation OutOfBoundsError :: exn where
  "OutOfBoundsError \<equiv> runtime_error ''Vector out of bounds''"

abbreviation IteratorOutOfBoundsError :: exn where
  "IteratorOutOfBoundsError \<equiv> runtime_error ''Iterator out of bounds''"

subsection \<open>Loops\<close>

text \<open>\<^verbatim>\<open>for (i = 0; i < n; ++i) dst[i] = src[i];\<close> (copy constructor and reallocate)\<close>

function copy_loop :: "nat \<Rightarrow> nat \<Rightarrow> ptr \<Rightarrow> ptr \<Rightarrow> 'a mem \<Rightarrow> 'a mem option" where
  "copy_loop i n dst src m =
     (if i < n
      then do {
        (x, m1) \<leftarrow> load src i m;
        m2 \<leftarrow> store dst i x m1;
        copy_loop (Suc i) n dst src m2
      }
      else Some m)"
  by pat_completeness auto
termination
  by (relation "measure (\<lambda>(i, n, dst, src, m). n - i)") auto

text \<open>\<^verbatim>\<open>size_type i = 0; for (const_reference el: il) values[i++] = el;\<close>\<close>

fun fill_loop :: "nat \<Rightarrow> 'a list \<Rightarrow> ptr \<Rightarrow> 'a mem \<Rightarrow> 'a mem option" where
  "fill_loop i [] p m = Some m"
| "fill_loop i (el # il) p m =
     do {
       m1 \<leftarrow> store p i (Some el) m;
       fill_loop (Suc i) il p m1
     }"

text \<open>\<^verbatim>\<open>for (size_t i = sz; i > current; --i) values[i] = values[i - 1];\<close> (insert)\<close>

function insert_loop :: "nat \<Rightarrow> nat \<Rightarrow> ptr \<Rightarrow> 'a mem \<Rightarrow> 'a mem option" where
  "insert_loop i current p m =
     (if i > current
      then do {
        (x, m1) \<leftarrow> load p (i - 1) m;
        m2 \<leftarrow> store p i x m1;
        insert_loop (i - 1) current p m2
      }
      else Some m)"
  by pat_completeness auto
termination
  by (relation "measure (\<lambda>(i, current, p, m). i)") auto

text \<open>\<^verbatim>\<open>for (size_t i = current; i < sz; ++i) values[i] = values[i + 1];\<close> (erase)\<close>

function erase_loop :: "nat \<Rightarrow> nat \<Rightarrow> ptr \<Rightarrow> 'a mem \<Rightarrow> 'a mem option" where
  "erase_loop i n p m =
     (if i < n
      then do {
        (x, m1) \<leftarrow> load p (i + 1) m;
        m2 \<leftarrow> store p i x m1;
        erase_loop (Suc i) n p m2
      }
      else Some m)"
  by pat_completeness auto
termination
  by (relation "measure (\<lambda>(i, n, p, m). n - i)") auto

declare copy_loop.simps [simp del]
declare insert_loop.simps [simp del]
declare erase_loop.simps [simp del]

subsection \<open>Constructors, destructor, assignment\<close>

text \<open>\<^verbatim>\<open>Vector() = default;\<close> with the member initialisers \<open>sz = 0, max_sz = 0, values = nullptr\<close>.\<close>

definition Vector_default :: vec where
  "Vector_default = \<lparr>sz = 0, max_sz = 0, values_ptr = Null 0\<rparr>"

text \<open>\<^verbatim>\<open>Vector(const Vector<T> &other)\<close>\<close>

definition Vector_copy :: "vec \<Rightarrow> 'a mem \<Rightarrow> (vec \<times> 'a mem) option" where
  "Vector_copy other m =
     do {
       let (p, m1) = new_array (max_sz other) m;
       let this = \<lparr>sz = sz other, max_sz = max_sz other, values_ptr = p\<rparr>;
       m2 \<leftarrow> copy_loop 0 (sz other) (values_ptr this) (values_ptr other) m1;
       Some (this, m2)
     }"

text \<open>\<^verbatim>\<open>explicit Vector(const size_type n)\<close>\<close>

definition Vector_n :: "nat \<Rightarrow> 'a mem \<Rightarrow> vec \<times> 'a mem" where
  "Vector_n n m =
     (let (p, m1) = new_array n m
      in (\<lparr>sz = 0, max_sz = n, values_ptr = p\<rparr>, m1))"

text \<open>\<^verbatim>\<open>Vector(const std::initializer_list<value_type> il)\<close>\<close>

definition Vector_il :: "'a list \<Rightarrow> 'a mem \<Rightarrow> (vec \<times> 'a mem) option" where
  "Vector_il il m =
     do {
       let (p, m1) = new_array (length il) m;
       let this = \<lparr>sz = length il, max_sz = length il, values_ptr = p\<rparr>;
       m2 \<leftarrow> fill_loop 0 il (values_ptr this) m1;
       Some (this, m2)
     }"

text \<open>\<^verbatim>\<open>~Vector()\<close>\<close>

definition Vector_destroy :: "vec \<Rightarrow> 'a mem \<Rightarrow> 'a mem option" where
  "Vector_destroy this m = delete_array (values_ptr this) m"

text \<open>
  \<^verbatim>\<open>Vector<T> &operator=(Vector<T> other)\<close>: the parameter is passed by value, so the
  call copy-constructs \<open>other\<close> from the argument \<open>src\<close>; the body swaps the three
  members, and \<open>other\<close>, which now owns the previous array, is destroyed on return.
\<close>

definition assign :: "vec \<Rightarrow> vec \<Rightarrow> 'a mem \<Rightarrow> (vec \<times> 'a mem) option" where
  "assign this src m =
     do {
       (other, m1) \<leftarrow> Vector_copy src m;
       let (this1, other1) = (this\<lparr>sz := sz other\<rparr>, other\<lparr>sz := sz this\<rparr>);
       let (this2, other2) = (this1\<lparr>max_sz := max_sz other1\<rparr>, other1\<lparr>max_sz := max_sz this1\<rparr>);
       let (this3, other3) =
         (this2\<lparr>values_ptr := values_ptr other2\<rparr>, other2\<lparr>values_ptr := values_ptr this2\<rparr>);
       m2 \<leftarrow> Vector_destroy other3 m1;
       Some (this3, m2)
     }"

subsection \<open>Queries\<close>

definition size_v :: "vec \<Rightarrow> nat" where
  "size_v this = sz this"

definition empty_v :: "vec \<Rightarrow> bool" where
  "empty_v this = (sz this = 0)"

definition capacity :: "vec \<Rightarrow> nat" where
  "capacity this = max_sz this"

definition begin_v :: "vec \<Rightarrow> iterator" where
  "begin_v this = Iterator (values_ptr this)"

definition end_v :: "vec \<Rightarrow> iterator" where
  "end_v this = Iterator (ptr_add (values_ptr this) (sz this))"

definition cbegin_v :: "vec \<Rightarrow> const_iterator" where
  "cbegin_v this = ConstIterator (values_ptr this)"

definition cend_v :: "vec \<Rightarrow> const_iterator" where
  "cend_v this = ConstIterator (ptr_add (values_ptr this) (sz this))"

subsection \<open>Capacity\<close>

definition reallocate :: "vec \<Rightarrow> nat \<Rightarrow> 'a mem \<Rightarrow> (vec \<times> 'a mem) option" where
  "reallocate this new_size m =
     (if new_size < sz this then Some (this, m)
      else do {
        let (tmp_array, m1) = new_array new_size m;
        m2 \<leftarrow> copy_loop 0 (sz this) tmp_array (values_ptr this) m1;
        m3 \<leftarrow> delete_array (values_ptr this) m2;
        Some (this\<lparr>values_ptr := tmp_array, max_sz := new_size\<rparr>, m3)
      })"

definition clear :: "vec \<Rightarrow> vec" where
  "clear this = this\<lparr>sz := 0\<rparr>"

definition reserve :: "vec \<Rightarrow> nat \<Rightarrow> 'a mem \<Rightarrow> (vec \<times> 'a mem) option" where
  "reserve this n m = (if n > max_sz this then reallocate this n m else Some (this, m))"

definition shrink_to_fit :: "vec \<Rightarrow> 'a mem \<Rightarrow> (vec \<times> 'a mem) option" where
  "shrink_to_fit this m =
     (if sz this < max_sz this then reallocate this (sz this) m else Some (this, m))"

subsection \<open>Element access and modifiers\<close>

text \<open>
  An operation that can throw returns \<open>Inl\<close> of the exception or \<open>Inr\<close> of its result,
  next to the container and the store as the call leaves them.
\<close>

text \<open>
  \<^verbatim>\<open>void push_back(const_reference el)\<close>: \<^verbatim>\<open>values[sz++] = el;\<close> reads the reference
  after \<^verbatim>\<open>reallocate\<close> has run.
\<close>

definition push_back ::
  "vec \<Rightarrow> 'a const_reference \<Rightarrow> 'a mem \<Rightarrow> (vec \<times> 'a mem) option" where
  "push_back this el m =
     do {
       (this1, m1) \<leftarrow>
         (if sz this \<ge> max_sz this
          then reallocate this (max_sz this + max_sz this div 2 + 1) m
          else Some (this, m));
       (x, m2) \<leftarrow> read_ref el m1;
       m3 \<leftarrow> store (values_ptr this1) (sz this1) x m2;
       Some (this1\<lparr>sz := sz this1 + 1\<rparr>, m3)
     }"

definition pop_back :: "vec \<Rightarrow> 'a mem \<Rightarrow> (exn + unit) \<times> vec \<times> 'a mem" where
  "pop_back this m =
     (if sz this = 0 then (Inl (runtime_error ''Vector is empty''), this, m)
      else (Inr (), this\<lparr>sz := sz this - 1\<rparr>, m))"

text \<open>
  \<^verbatim>\<open>operator[]\<close> returns a reference to \<^verbatim>\<open>values[index]\<close>: the pointer to that slot. The
  const overload has the same body.
\<close>

definition subscript :: "vec \<Rightarrow> nat \<Rightarrow> 'a mem \<Rightarrow> ((exn + ptr) \<times> vec \<times> 'a mem) option" where
  "subscript this index m =
     (if index \<ge> sz this then Some (Inl (runtime_error ''Vector out of bounds''), this, m)
      else Some (Inr (ptr_add (values_ptr this) index), this, m))"

text \<open>Reading the element that \<^verbatim>\<open>operator[]\<close> refers to, as in \<^verbatim>\<open>T x = v[index];\<close>\<close>

definition read_at :: "vec \<Rightarrow> nat \<Rightarrow> 'a mem \<Rightarrow> ((exn + 'a slot) \<times> vec \<times> 'a mem) option" where
  "read_at this index m =
     do {
       (r, this1, m1) \<leftarrow> subscript this index m;
       (case r of
          Inl e \<Rightarrow> Some (Inl e, this1, m1)
        | Inr p \<Rightarrow> do {
            (x, m2) \<leftarrow> load p 0 m1;
            Some (Inr x, this1, m2)
          })
     }"

text \<open>
  \<^verbatim>\<open>iterator insert(const_iterator pos, const_reference val)\<close>: \<^verbatim>\<open>values[current] = val;\<close>
  reads the reference after \<^verbatim>\<open>reallocate\<close> and after the loop that shifts the elements.
\<close>

definition insert_v ::
  "vec \<Rightarrow> const_iterator \<Rightarrow> 'a const_reference \<Rightarrow> 'a mem \<Rightarrow>
     ((exn + iterator) \<times> vec \<times> 'a mem) option" where
  "insert_v this pos val m =
     do {
       diff \<leftarrow> const_iterator_minus pos (to_const_iterator (begin_v this));
       if diff < 0 \<or> nat diff > sz this
       then Some (Inl (runtime_error ''Iterator out of bounds''), this, m)
       else do {
         let current = nat diff;
         (this1, m1) \<leftarrow>
           (if sz this \<ge> max_sz this
            then reallocate this (max_sz this + max_sz this div 2 + 1) m
            else Some (this, m));
         m2 \<leftarrow> insert_loop (sz this1) current (values_ptr this1) m1;
         (x, m3) \<leftarrow> read_ref val m2;
         m4 \<leftarrow> store (values_ptr this1) current x m3;
         let this2 = this1\<lparr>sz := sz this1 + 1\<rparr>;
         Some (Inr (Iterator (ptr_add (values_ptr this2) current)), this2, m4)
       }
     }"

definition erase ::
  "vec \<Rightarrow> const_iterator \<Rightarrow> 'a mem \<Rightarrow> ((exn + iterator) \<times> vec \<times> 'a mem) option" where
  "erase this pos m =
     do {
       diff \<leftarrow> const_iterator_minus pos (to_const_iterator (begin_v this));
       if diff < 0 \<or> nat diff \<ge> sz this
       then Some (Inl (runtime_error ''Iterator out of bounds''), this, m)
       else do {
         let current = nat diff;
         m1 \<leftarrow> erase_loop current (sz this) (values_ptr this) m;
         let this1 = this\<lparr>sz := sz this - 1\<rparr>;
         Some (Inr (Iterator (ptr_add (values_ptr this1) current)), this1, m1)
       }
     }"

text \<open>\<^verbatim>\<open>operator*\<close> of both iterator classes: \<^verbatim>\<open>return *ptr;\<close> read as a value.\<close>

definition iterator_deref :: "iterator \<Rightarrow> 'a mem \<Rightarrow> ('a slot \<times> 'a mem) option" where
  "iterator_deref it m = load (iterator_ptr it) 0 m"

definition const_iterator_deref :: "const_iterator \<Rightarrow> 'a mem \<Rightarrow> ('a slot \<times> 'a mem) option" where
  "const_iterator_deref it m = load (const_iterator_ptr it) 0 m"

text \<open>A sequence of \<^verbatim>\<open>push_back\<close> calls on one container, in order.\<close>

fun push_back_all ::
  "vec \<Rightarrow> 'a const_reference list \<Rightarrow> 'a mem \<Rightarrow> (vec \<times> 'a mem) option" where
  "push_back_all this [] m = Some (this, m)"
| "push_back_all this (el # els) m =
     do {
       (this1, m1) \<leftarrow> push_back this el m;
       push_back_all this1 els m1
     }"

section \<open>Representation invariant and abstraction\<close>

text \<open>
  A container is \<open>valid\<close> in a store when its size is at most its capacity and its
  pointer is null with capacity 0, or is the start of a live array of exactly
  \<open>max_sz\<close> slots. Its \<open>contents\<close> are the slots \<open>[0, sz)\<close> of that array.
\<close>

definition valid :: "vec \<Rightarrow> 'a mem \<Rightarrow> bool" where
  "valid v m =
     (sz v \<le> max_sz v \<and>
      (case values_ptr v of
         Null n \<Rightarrow> n = 0 \<and> max_sz v = 0
       | Ptr b off \<Rightarrow>
           off = 0 \<and> (case lookup m b of None \<Rightarrow> False | Some buf \<Rightarrow> length buf = max_sz v)))"

definition contents :: "vec \<Rightarrow> 'a mem \<Rightarrow> 'a slot list" where
  "contents v m =
     (case values_ptr v of
        Null n \<Rightarrow> []
      | Ptr b off \<Rightarrow>
          (case lookup m b of None \<Rightarrow> [] | Some buf \<Rightarrow> take (sz v) (drop off buf)))"

text \<open>
  Two containers are \<open>separate\<close> when they do not own the same array. \<open>frame v m m'\<close>:
  from \<open>m\<close> to \<open>m'\<close> no array of \<open>m\<close> other than the one \<open>v\<close> owns has changed.
  \<open>unchanged m m'\<close>: no array of \<open>m\<close> has changed at all.
\<close>

definition separate :: "vec \<Rightarrow> vec \<Rightarrow> bool" where
  "separate v w =
     (case values_ptr v of Null n \<Rightarrow> True | Ptr b off \<Rightarrow> values_ptr v \<noteq> values_ptr w)"

definition frame :: "vec \<Rightarrow> 'a mem \<Rightarrow> 'a mem \<Rightarrow> bool" where
  "frame v m m' =
     (length (arrays m) \<le> length (arrays m') \<and>
      (\<forall>c<length (arrays m). Ptr c 0 \<noteq> values_ptr v \<longrightarrow> lookup m' c = lookup m c))"

definition unchanged :: "'a mem \<Rightarrow> 'a mem \<Rightarrow> bool" where
  "unchanged m m' =
     (length (arrays m) \<le> length (arrays m') \<and>
      (\<forall>c<length (arrays m). lookup m' c = lookup m c))"

text \<open>The capacity after an append: the growth policy applies when the array is full.\<close>

definition grown :: "vec \<Rightarrow> nat" where
  "grown v = (if sz v = max_sz v then max_sz v + max_sz v div 2 + 1 else max_sz v)"

section \<open>The store and the loops\<close>

lemma lookup_SomeD: "lookup m b = Some buf \<Longrightarrow> b < length (arrays m) \<and> arrays m ! b = Some buf"
  by (auto simp: lookup_def split: if_splits)

lemma lookup_reads_update [simp]: "lookup (m\<lparr>reads := r\<rparr>) b = lookup m b"
  by (simp add: lookup_def)

lemma lookup_arrays_update [simp]:
  "lookup (m\<lparr>arrays := a\<rparr>) b = (if b < length a then a ! b else None)"
  by (simp add: lookup_def)

lemma load_Ptr:
  "lookup m b = Some buf \<Longrightarrow> off + i < length buf \<Longrightarrow>
   load (Ptr b off) i m = Some (buf ! (off + i), m\<lparr>reads := (b, off + i) # reads m\<rparr>)"
  by (simp add: load_def slot_at_def)

lemma store_Ptr:
  "lookup m b = Some buf \<Longrightarrow> off + i < length buf \<Longrightarrow>
   store (Ptr b off) i x m = Some (m\<lparr>arrays := (arrays m)[b := Some (buf[off + i := x])]\<rparr>)"
  by (simp add: store_def)

lemma arrays_update_same: "lookup m d = Some buf \<Longrightarrow> (arrays m)[d := Some buf] = arrays m"
  by (metis lookup_SomeD list_update_id)

lemma copy_loop_ok:
  assumes "lookup m s = Some sbuf" "lookup m d = Some dbuf" "s \<noteq> d"
    "n \<le> length sbuf" "n \<le> length dbuf"
  shows "\<exists>m' buf'. copy_loop i n (Ptr d 0) (Ptr s 0) m = Some m' \<and>
           arrays m' = (arrays m)[d := Some buf'] \<and> length buf' = length dbuf \<and>
           (\<forall>j<length dbuf. buf' ! j = (if i \<le> j \<and> j < n then sbuf ! j else dbuf ! j))"
  using assms
proof (induction "n - i" arbitrary: i m dbuf)
  case 0
  then have "copy_loop i n (Ptr d 0) (Ptr s 0) m = Some m"
    by (subst copy_loop.simps) simp
  moreover have "arrays m = (arrays m)[d := Some dbuf]"
    using 0 by (simp add: arrays_update_same)
  moreover have "\<forall>j<length dbuf. dbuf ! j = (if i \<le> j \<and> j < n then sbuf ! j else dbuf ! j)"
    using 0 by auto
  ultimately show ?case by blast
next
  case (Suc k)
  then have lt: "i < n" by simp
  define m1 where "m1 = m\<lparr>reads := (s, i) # reads m\<rparr>"
  define m2 where "m2 = m1\<lparr>arrays := (arrays m1)[d := Some (dbuf[i := sbuf ! i])]\<rparr>"
  have ld: "load (Ptr s 0) i m = Some (sbuf ! i, m1)"
    using load_Ptr [OF Suc.prems(1), of 0 i] lt Suc.prems(4) by (simp add: m1_def)
  have st: "store (Ptr d 0) i (sbuf ! i) m1 = Some m2"
    using store_Ptr [of m1 d dbuf 0 i] lt Suc.prems(2,5) by (simp add: m1_def m2_def)
  have d: "d < length (arrays m)" "s < length (arrays m)"
    using Suc.prems(1,2) by (auto dest: lookup_SomeD)
  have "\<exists>m' buf'. copy_loop (Suc i) n (Ptr d 0) (Ptr s 0) m2 = Some m' \<and>
           arrays m' = (arrays m2)[d := Some buf'] \<and> length buf' = length (dbuf[i := sbuf ! i]) \<and>
           (\<forall>j<length (dbuf[i := sbuf ! i]). buf' ! j =
              (if Suc i \<le> j \<and> j < n then sbuf ! j else dbuf[i := sbuf ! i] ! j))"
  proof (rule Suc.hyps(1))
    show "k = n - Suc i" using Suc.hyps(2) by simp
    show "lookup m2 s = Some sbuf"
      using Suc.prems(1,3) d by (auto simp: m2_def m1_def dest: lookup_SomeD)
    show "lookup m2 d = Some (dbuf[i := sbuf ! i])"
      using d by (simp add: m2_def m1_def)
  qed (use Suc.prems in auto)
  then obtain m' buf' where r: "copy_loop (Suc i) n (Ptr d 0) (Ptr s 0) m2 = Some m'"
    "arrays m' = (arrays m2)[d := Some buf']" "length buf' = length dbuf"
    "\<forall>j<length dbuf. buf' ! j =
              (if Suc i \<le> j \<and> j < n then sbuf ! j else dbuf[i := sbuf ! i] ! j)"
    by auto
  have "copy_loop i n (Ptr d 0) (Ptr s 0) m = Some m'"
    using lt ld st r(1) by (subst copy_loop.simps) simp
  moreover have "arrays m' = (arrays m)[d := Some buf']"
    using r(2) by (simp add: m2_def m1_def)
  moreover have "\<forall>j<length dbuf. buf' ! j = (if i \<le> j \<and> j < n then sbuf ! j else dbuf ! j)"
  proof (intro allI impI)
    fix j assume j: "j < length dbuf"
    show "buf' ! j = (if i \<le> j \<and> j < n then sbuf ! j else dbuf ! j)"
      using r(4) lt j by (cases "j = i") (auto simp: nth_list_update)
  qed
  ultimately show ?case using r(3) by blast
qed


lemma insert_loop_ok:
  assumes "lookup m b = Some buf" "i < length buf"
  shows "\<exists>m' buf'. insert_loop i current (Ptr b 0) m = Some m' \<and>
           arrays m' = (arrays m)[b := Some buf'] \<and> length buf' = length buf \<and>
           (\<forall>j<length buf. buf' ! j = (if current < j \<and> j \<le> i then buf ! (j - 1) else buf ! j))"
  using assms
proof (induction i arbitrary: m buf)
  case 0
  have "insert_loop 0 current (Ptr b 0) m = Some m"
    by (subst insert_loop.simps) simp
  moreover have "arrays m = (arrays m)[b := Some buf]"
    using 0 by (simp add: arrays_update_same)
  ultimately show ?case by auto
next
  case (Suc i)
  show ?case
  proof (cases "current < Suc i")
    case False
    then have "insert_loop (Suc i) current (Ptr b 0) m = Some m"
      by (subst insert_loop.simps) simp
    moreover have "arrays m = (arrays m)[b := Some buf]"
      using Suc.prems by (simp add: arrays_update_same)
    moreover have "\<forall>j<length buf. buf ! j =
        (if current < j \<and> j \<le> Suc i then buf ! (j - 1) else buf ! j)"
      using False by auto
    ultimately show ?thesis by blast
  next
    case True
    define m1 where "m1 = m\<lparr>reads := (b, i) # reads m\<rparr>"
    define buf1 where "buf1 = buf[Suc i := buf ! i]"
    define m2 where "m2 = m1\<lparr>arrays := (arrays m1)[b := Some buf1]\<rparr>"
    have ld: "load (Ptr b 0) (Suc i - 1) m = Some (buf ! i, m1)"
      using load_Ptr [OF Suc.prems(1), of 0 i] Suc.prems(2) by (simp add: m1_def)
    have st: "store (Ptr b 0) (Suc i) (buf ! i) m1 = Some m2"
      using store_Ptr [of m1 b buf 0 "Suc i"] Suc.prems by (simp add: m1_def m2_def buf1_def)
    have b: "b < length (arrays m)"
      using Suc.prems(1) by (auto dest: lookup_SomeD)
    have "lookup m2 b = Some buf1"
      using b by (simp add: m2_def m1_def)
    moreover have "i < length buf1"
      using Suc.prems(2) by (simp add: buf1_def)
    ultimately obtain m' buf' where r: "insert_loop i current (Ptr b 0) m2 = Some m'"
      "arrays m' = (arrays m2)[b := Some buf']" "length buf' = length buf1"
      "\<forall>j<length buf1. buf' ! j = (if current < j \<and> j \<le> i then buf1 ! (j - 1) else buf1 ! j)"
      using Suc.IH [of m2 buf1] by blast
    have "insert_loop (Suc i) current (Ptr b 0) m = Some m'"
      using True ld st r(1) by (subst insert_loop.simps) simp
    moreover have "arrays m' = (arrays m)[b := Some buf']"
      using r(2) by (simp add: m2_def m1_def)
    moreover have "length buf' = length buf"
      using r(3) by (simp add: buf1_def)
    moreover have "\<forall>j<length buf. buf' ! j =
        (if current < j \<and> j \<le> Suc i then buf ! (j - 1) else buf ! j)"
    proof (intro allI impI)
      fix j assume j: "j < length buf"
      show "buf' ! j = (if current < j \<and> j \<le> Suc i then buf ! (j - 1) else buf ! j)"
        using r(4) True j Suc.prems(2)
        by (cases "j = Suc i") (auto simp: buf1_def nth_list_update)
    qed
    ultimately show ?thesis by blast
  qed
qed

lemma erase_loop_ok:
  assumes "lookup m b = Some buf" "n \<le> length buf"
  shows "\<exists>m' buf'. erase_loop i n (Ptr b 0) m = Some m' \<and>
           arrays m' = (arrays m)[b := Some buf'] \<and> length buf' = length buf \<and>
           (\<forall>j<length buf. buf' ! j =
              (if i \<le> j \<and> j < n then (if j + 1 < length buf then buf ! (j + 1) else None)
               else buf ! j))"
  using assms
proof (induction "n - i" arbitrary: i m buf)
  case 0
  then have "erase_loop i n (Ptr b 0) m = Some m"
    by (subst erase_loop.simps) simp
  moreover have "arrays m = (arrays m)[b := Some buf]"
    using 0 by (simp add: arrays_update_same)
  moreover have "\<forall>j<length buf. buf ! j =
      (if i \<le> j \<and> j < n then (if j + 1 < length buf then buf ! (j + 1) else None)
       else buf ! j)"
    using 0 by auto
  ultimately show ?case by blast
next
  case (Suc k)
  then have lt: "i < n" by simp
  define x where "x = (if Suc i < length buf then buf ! Suc i else None)"
  define m1 where "m1 = m\<lparr>reads := (b, Suc i) # reads m\<rparr>"
  define buf1 where "buf1 = buf[i := x]"
  define m2 where "m2 = m1\<lparr>arrays := (arrays m1)[b := Some buf1]\<rparr>"
  have ld: "load (Ptr b 0) (i + 1) m = Some (x, m1)"
    using Suc.prems(1) by (simp add: load_def slot_at_def m1_def x_def)
  have st: "store (Ptr b 0) i x m1 = Some m2"
    using store_Ptr [of m1 b buf 0 i] lt Suc.prems by (simp add: m1_def m2_def buf1_def)
  have b: "b < length (arrays m)"
    using Suc.prems(1) by (auto dest: lookup_SomeD)
  have "lookup m2 b = Some buf1"
    using b by (simp add: m2_def m1_def)
  moreover have "n \<le> length buf1"
    using Suc.prems(2) by (simp add: buf1_def)
  moreover have "k = n - Suc i"
    using Suc.hyps(2) by simp
  ultimately obtain m' buf' where r: "erase_loop (Suc i) n (Ptr b 0) m2 = Some m'"
    "arrays m' = (arrays m2)[b := Some buf']" "length buf' = length buf1"
    "\<forall>j<length buf1. buf' ! j =
       (if Suc i \<le> j \<and> j < n then (if j + 1 < length buf1 then buf1 ! (j + 1) else None)
        else buf1 ! j)"
    using Suc.hyps(1) [of "Suc i" m2 buf1] by blast
  have "erase_loop i n (Ptr b 0) m = Some m'"
    using lt ld st r(1) by (subst erase_loop.simps) simp
  moreover have "arrays m' = (arrays m)[b := Some buf']"
    using r(2) by (simp add: m2_def m1_def)
  moreover have "length buf' = length buf"
    using r(3) by (simp add: buf1_def)
  moreover have "\<forall>j<length buf. buf' ! j =
      (if i \<le> j \<and> j < n then (if j + 1 < length buf then buf ! (j + 1) else None)
       else buf ! j)"
  proof (intro allI impI)
    fix j assume j: "j < length buf"
    show "buf' ! j =
      (if i \<le> j \<and> j < n then (if j + 1 < length buf then buf ! (j + 1) else None)
       else buf ! j)"
      using r(4) lt j Suc.prems(2)
      by (cases "j = i") (auto simp: buf1_def x_def nth_list_update)
  qed
  ultimately show ?case by blast
qed

lemma fill_loop_ok:
  assumes "lookup m b = Some buf" "i + length il \<le> length buf"
  shows "\<exists>m' buf'. fill_loop i il (Ptr b 0) m = Some m' \<and>
           arrays m' = (arrays m)[b := Some buf'] \<and> length buf' = length buf \<and>
           (\<forall>j<length buf. buf' ! j =
              (if i \<le> j \<and> j < i + length il then Some (il ! (j - i)) else buf ! j))"
  using assms
proof (induction il arbitrary: i m buf)
  case Nil
  have "arrays m = (arrays m)[b := Some buf]"
    using Nil by (simp add: arrays_update_same)
  then show ?case by auto
next
  case (Cons el il)
  define buf1 where "buf1 = buf[i := Some el]"
  define m1 where "m1 = m\<lparr>arrays := (arrays m)[b := Some buf1]\<rparr>"
  have st: "store (Ptr b 0) i (Some el) m = Some m1"
    using store_Ptr [of m b buf 0 i] Cons.prems by (simp add: m1_def buf1_def)
  have b: "b < length (arrays m)"
    using Cons.prems(1) by (auto dest: lookup_SomeD)
  have "lookup m1 b = Some buf1"
    using b by (simp add: m1_def)
  moreover have "Suc i + length il \<le> length buf1"
    using Cons.prems(2) by (simp add: buf1_def)
  ultimately obtain m' buf' where r: "fill_loop (Suc i) il (Ptr b 0) m1 = Some m'"
    "arrays m' = (arrays m1)[b := Some buf']" "length buf' = length buf1"
    "\<forall>j<length buf1. buf' ! j =
       (if Suc i \<le> j \<and> j < Suc i + length il then Some (il ! (j - Suc i)) else buf1 ! j)"
    using Cons.IH [of m1 buf1 "Suc i"] by blast
  have "fill_loop i (el # il) (Ptr b 0) m = Some m'"
    using st r(1) by simp
  moreover have "arrays m' = (arrays m)[b := Some buf']"
    using r(2) by (simp add: m1_def)
  moreover have "length buf' = length buf"
    using r(3) by (simp add: buf1_def)
  moreover have "\<forall>j<length buf. buf' ! j =
       (if i \<le> j \<and> j < i + length (el # il) then Some ((el # il) ! (j - i)) else buf ! j)"
  proof (intro allI impI)
    fix j assume j: "j < length buf"
    show "buf' ! j =
       (if i \<le> j \<and> j < i + length (el # il) then Some ((el # il) ! (j - i)) else buf ! j)"
      using r(4) j Cons.prems(2)
      by (cases "j = i") (auto simp: buf1_def nth_list_update Suc_diff_le)
  qed
  ultimately show ?case by blast
qed

section \<open>The operations on a valid container\<close>

lemma valid_reads [simp]: "valid v (m\<lparr>reads := r\<rparr>) = valid v m"
  by (simp add: valid_def split: ptr.splits)

lemma contents_reads [simp]: "contents v (m\<lparr>reads := r\<rparr>) = contents v m"
  by (simp add: contents_def split: ptr.splits)

lemma slot_at_reads [simp]: "slot_at (m\<lparr>reads := r\<rparr>) b j = slot_at m b j"
  by (simp add: slot_at_def)

lemma read_ref_Some:
  "\<exists>rs. read_ref r m =
     Some ((case r of Object y \<Rightarrow> Some y | Element b off \<Rightarrow> slot_at m b off), m\<lparr>reads := rs\<rparr>)"
proof (cases r)
  case (Object y)
  have "m = m\<lparr>reads := reads m\<rparr>" by simp
  then show ?thesis
    using Object by (auto simp: read_ref_def intro: exI [of _ "reads m"])
next
  case (Element b off)
  have "read_ref r m = Some (slot_at m b off, m\<lparr>reads := (b, off) # reads m\<rparr>)"
    using Element by (simp add: read_ref_def load_def)
  then show ?thesis
    using Element by auto
qed

lemma valid_cases:
  assumes "valid v m"
  obtains (null) "values_ptr v = Null 0" "sz v = 0" "max_sz v = 0"
  | (array) b buf where "values_ptr v = Ptr b 0" "lookup m b = Some buf"
      "length buf = max_sz v" "sz v \<le> max_sz v"
  using assms by (auto simp: valid_def split: ptr.splits option.splits)

lemma valid_array:
  assumes "valid v m" "sz v < max_sz v"
  obtains b buf where "values_ptr v = Ptr b 0" "lookup m b = Some buf" "length buf = max_sz v"
  using assms by (auto simp: valid_def split: ptr.splits option.splits)

lemma validI:
  "values_ptr v = Ptr b 0 \<Longrightarrow> lookup m b = Some buf \<Longrightarrow> length buf = max_sz v \<Longrightarrow>
   sz v \<le> max_sz v \<Longrightarrow> valid v m"
  by (simp add: valid_def)

lemma contents_array:
  "values_ptr v = Ptr b 0 \<Longrightarrow> lookup m b = Some buf \<Longrightarrow> contents v m = take (sz v) buf"
  by (simp add: contents_def)

lemma frame_refl: "frame v m m"
  by (simp add: frame_def)

lemma frame_reads [simp]: "frame v m (m\<lparr>reads := r\<rparr>)"
  by (simp add: frame_def)

lemma frame_reads_left [simp]: "frame v (m\<lparr>reads := r\<rparr>) m' = frame v m m'"
  by (simp add: frame_def)

lemma frame_trans:
  "frame v m m1 \<Longrightarrow> frame v' m1 m2 \<Longrightarrow>
   (\<forall>c<length (arrays m). Ptr c 0 \<noteq> values_ptr v \<longrightarrow> Ptr c 0 \<noteq> values_ptr v') \<Longrightarrow> frame v m m2"
  by (auto simp: frame_def)

lemma frame_own_array:
  "values_ptr v = Ptr b 0 \<Longrightarrow> arrays m' = (arrays m)[b := y] \<Longrightarrow> frame v m m'"
  by (auto simp: frame_def lookup_def)

lemma take_eqI:
  assumes "n \<le> length xs" "n \<le> length ys" "\<forall>j<n. xs ! j = ys ! j"
  shows "take n xs = take n ys"
  using assms by (intro nth_equalityI) auto

lemma reallocate_ok:
  assumes "valid v m" "sz v \<le> n"
  shows "\<exists>m' buf'. reallocate v n m =
            Some (v\<lparr>values_ptr := Ptr (length (arrays m)) 0, max_sz := n\<rparr>, m') \<and>
          length (arrays m') = Suc (length (arrays m)) \<and>
          lookup m' (length (arrays m)) = Some buf' \<and> length buf' = n \<and>
          take (sz v) buf' = contents v m \<and> frame v m m' \<and>
          (\<forall>c. values_ptr v = Ptr c 0 \<longrightarrow> lookup m' c = None)"
  using assms(1)
proof (cases rule: valid_cases)
  case null
  define m1 where "m1 = m\<lparr>arrays := arrays m @ [Some (replicate n None)]\<rparr>"
  have "reallocate v n m = Some (v\<lparr>values_ptr := Ptr (length (arrays m)) 0, max_sz := n\<rparr>, m1)"
    using null by (simp add: reallocate_def new_array_def copy_loop.simps delete_array_def m1_def)
  moreover have "frame v m m1"
    by (auto simp: frame_def m1_def nth_append lookup_def)
  moreover have "lookup m1 (length (arrays m)) = Some (replicate n None)"
    by (simp add: m1_def)
  ultimately show ?thesis
    using null by (auto simp: m1_def contents_def)
next
  case (array b buf)
  define L where "L = length (arrays m)"
  define m1 where "m1 = m\<lparr>arrays := arrays m @ [Some (replicate n None)]\<rparr>"
  have b: "b < L" "arrays m ! b = Some buf"
    using array(2) by (auto simp: L_def dest: lookup_SomeD)
  have l1: "lookup m1 b = Some buf" "lookup m1 L = Some (replicate n None)"
    using b by (simp_all add: m1_def L_def nth_append)
  obtain m2 buf' where c: "copy_loop 0 (sz v) (Ptr L 0) (Ptr b 0) m1 = Some m2"
    "arrays m2 = (arrays m1)[L := Some buf']" "length buf' = n"
    "\<forall>j<n. buf' ! j = (if j < sz v then buf ! j else replicate n None ! j)"
    using copy_loop_ok [OF l1, of "sz v" 0] b(1) array(3,4) assms(2) by auto
  define m3 where "m3 = m2\<lparr>arrays := (arrays m2)[b := None]\<rparr>"
  have "lookup m2 b = Some buf"
    using b c(2) by (simp add: lookup_def m1_def L_def nth_append nth_list_update)
  then have d: "delete_array (Ptr b 0) m2 = Some m3"
    by (simp add: delete_array_def m3_def)
  have "reallocate v n m = Some (v\<lparr>values_ptr := Ptr L 0, max_sz := n\<rparr>, m3)"
    using assms(2) array(1) c(1) d
    by (simp add: reallocate_def new_array_def m1_def [symmetric] L_def [symmetric])
  moreover have "length (arrays m3) = Suc L"
    using c(2) by (simp add: m3_def m1_def L_def)
  moreover have "lookup m3 L = Some buf'"
    using c(2) b(1) by (simp add: m3_def m1_def L_def lookup_def nth_list_update)
  moreover have "take (sz v) buf' = contents v m"
    using c(3,4) array assms(2) by (simp add: contents_array take_eqI)
  moreover have "frame v m m3"
    using c(2) b(1) array(1)
    by (auto simp: frame_def m3_def m1_def L_def lookup_def nth_list_update nth_append)
  moreover have "\<forall>c. values_ptr v = Ptr c 0 \<longrightarrow> lookup m3 c = None"
    using c(2) b(1) array(1) by (simp add: m3_def m1_def L_def)
  ultimately show ?thesis
    using c(3) unfolding L_def by blast
qed

lemma append_ok:
  assumes "valid v m" "sz v < max_sz v"
  shows "\<exists>m'. store (values_ptr v) (sz v) x m = Some m' \<and>
           valid (v\<lparr>sz := sz v + 1\<rparr>) m' \<and>
           contents (v\<lparr>sz := sz v + 1\<rparr>) m' = contents v m @ [x] \<and> frame v m m'"
proof -
  obtain b buf where a: "values_ptr v = Ptr b 0" "lookup m b = Some buf" "length buf = max_sz v"
    using assms by (rule valid_array)
  define m' where "m' = m\<lparr>arrays := (arrays m)[b := Some (buf[sz v := x])]\<rparr>"
  have b: "b < length (arrays m)"
    using a(2) by (auto dest: lookup_SomeD)
  have "store (values_ptr v) (sz v) x m = Some m'"
    using store_Ptr [OF a(2), of 0 "sz v" x] a assms(2) by (simp add: m'_def)
  moreover have l: "lookup m' b = Some (buf[sz v := x])"
    using b by (simp add: m'_def)
  then have "valid (v\<lparr>sz := sz v + 1\<rparr>) m'"
    using a assms(2) by (simp add: valid_def)
  moreover have "contents (v\<lparr>sz := sz v + 1\<rparr>) m' = contents v m @ [x]"
    using a assms(2) l by (simp add: contents_def take_Suc_conv_app_nth)
  moreover have "frame v m m'"
    using a(1) by (rule frame_own_array) (simp add: m'_def)
  ultimately show ?thesis by blast
qed

lemma grow_ok:
  assumes "valid v m"
  shows "\<exists>v1 m1. (if sz v \<ge> max_sz v
                   then reallocate v (max_sz v + max_sz v div 2 + 1) m
                   else Some (v, m)) = Some (v1, m1) \<and>
           valid v1 m1 \<and> contents v1 m1 = contents v m \<and> sz v1 = sz v \<and>
           max_sz v1 = grown v \<and> sz v1 < max_sz v1 \<and> frame v m m1 \<and>
           (\<forall>c<length (arrays m). Ptr c 0 \<noteq> values_ptr v \<longrightarrow> Ptr c 0 \<noteq> values_ptr v1) \<and>
           (sz v = max_sz v \<longrightarrow> (\<forall>c. values_ptr v = Ptr c 0 \<longrightarrow> lookup m1 c = None)) \<and>
           (sz v < max_sz v \<longrightarrow> v1 = v \<and> m1 = m)"
proof (cases "sz v \<ge> max_sz v")
  case False
  then show ?thesis
    using assms by (auto simp: grown_def frame_refl)
next
  case True
  then have eq: "sz v = max_sz v"
    using assms by (simp add: valid_def)
  define n where "n = max_sz v + max_sz v div 2 + 1"
  define v1 where "v1 = v\<lparr>values_ptr := Ptr (length (arrays m)) 0, max_sz := n\<rparr>"
  have "sz v \<le> n"
    using eq by (simp add: n_def)
  then obtain m1 buf' where r: "reallocate v n m = Some (v1, m1)"
    "lookup m1 (length (arrays m)) = Some buf'" "length buf' = n"
    "take (sz v) buf' = contents v m" "frame v m m1"
    "\<forall>c. values_ptr v = Ptr c 0 \<longrightarrow> lookup m1 c = None"
    using reallocate_ok [OF assms, of n] unfolding v1_def by blast
  have "valid v1 m1"
    using r(2,3) \<open>sz v \<le> n\<close> by (simp add: valid_def v1_def)
  moreover have "contents v1 m1 = contents v m"
    using r(2,4) by (simp add: contents_def v1_def)
  moreover have "max_sz v1 = grown v" "sz v1 < max_sz v1" "sz v1 = sz v"
    using eq by (simp_all add: v1_def n_def grown_def)
  moreover have "\<forall>c<length (arrays m). Ptr c 0 \<noteq> values_ptr v \<longrightarrow> Ptr c 0 \<noteq> values_ptr v1"
    by (simp add: v1_def)
  ultimately show ?thesis
    using True eq r(1,5,6) unfolding n_def by simp
qed

lemma push_back_ok:
  assumes "valid v m"
  shows "\<exists>v' m' x. push_back v el m = Some (v', m') \<and> valid v' m' \<and>
           contents v' m' = contents v m @ [x] \<and> sz v' = Suc (sz v) \<and>
           max_sz v' = grown v \<and> frame v m m' \<and>
           (\<forall>y. el = Object y \<longrightarrow> x = Some y) \<and>
           (\<forall>b off. el = Element b off \<and> sz v = max_sz v \<and> values_ptr v = Ptr b 0 \<longrightarrow>
              x = None) \<and>
           (\<forall>b off. el = Element b off \<and> sz v < max_sz v \<longrightarrow> x = slot_at m b off)"
proof -
  obtain v1 m1 where g: "(if sz v \<ge> max_sz v
                   then reallocate v (max_sz v + max_sz v div 2 + 1) m
                   else Some (v, m)) = Some (v1, m1)"
    "valid v1 m1" "contents v1 m1 = contents v m" "sz v1 = sz v"
    "max_sz v1 = grown v" "sz v1 < max_sz v1" "frame v m m1"
    "\<forall>c<length (arrays m). Ptr c 0 \<noteq> values_ptr v \<longrightarrow> Ptr c 0 \<noteq> values_ptr v1"
    "sz v = max_sz v \<longrightarrow> (\<forall>c. values_ptr v = Ptr c 0 \<longrightarrow> lookup m1 c = None)"
    "sz v < max_sz v \<longrightarrow> v1 = v \<and> m1 = m"
    using grow_ok [OF assms] by blast
  define x where "x = (case el of Object y \<Rightarrow> Some y | Element b off \<Rightarrow> slot_at m1 b off)"
  obtain rs where rd: "read_ref el m1 = Some (x, m1\<lparr>reads := rs\<rparr>)"
    using read_ref_Some [of el m1] unfolding x_def by blast
  have v: "valid v1 (m1\<lparr>reads := rs\<rparr>)"
    using g(2) by simp
  obtain m3 where a: "store (values_ptr v1) (sz v1) x (m1\<lparr>reads := rs\<rparr>) = Some m3"
    "valid (v1\<lparr>sz := sz v1 + 1\<rparr>) m3"
    "contents (v1\<lparr>sz := sz v1 + 1\<rparr>) m3 = contents v1 (m1\<lparr>reads := rs\<rparr>) @ [x]"
    "frame v1 (m1\<lparr>reads := rs\<rparr>) m3"
    using append_ok [OF v g(6), of x] by blast
  have "push_back v el m = Some (v1\<lparr>sz := sz v1 + 1\<rparr>, m3)"
    unfolding push_back_def using g(1) rd a(1) by simp
  moreover have "frame v m m3"
    using g(7) a(4) g(8) by (auto intro: frame_trans)
  moreover have "x = Some y" if "el = Object y" for y
    using that by (simp add: x_def)
  moreover have "x = None" if "el = Element b off \<and> sz v = max_sz v \<and> values_ptr v = Ptr b 0"
    for b off
    using that g(9) by (simp add: x_def slot_at_def)
  moreover have "x = slot_at m b off" if "el = Element b off \<and> sz v < max_sz v" for b off
    using that g(10) by (simp add: x_def)
  ultimately show ?thesis
    using a(2,3) g(3,4,5) by auto
qed

lemma pos_offset:
  assumes "valid v m" "const_iterator_minus pos (to_const_iterator (begin_v v)) = Some (int k)"
  shows "ptr_add (values_ptr v) k = const_iterator_ptr pos"
  using assms
  by (cases pos)
    (auto simp: const_iterator_minus_def to_const_iterator_def begin_v_def ptr_diff_def
      ptr_add_def valid_def split: ptr.splits if_splits)

lemma insert_shift_ok:
  assumes "valid v m" "sz v < max_sz v" "k \<le> sz v"
  shows "\<exists>m1. insert_loop (sz v) k (values_ptr v) m = Some m1 \<and>
           (\<forall>x rs. \<exists>m3. store (values_ptr v) k x (m1\<lparr>reads := rs\<rparr>) = Some m3 \<and>
              valid (v\<lparr>sz := sz v + 1\<rparr>) m3 \<and>
              contents (v\<lparr>sz := sz v + 1\<rparr>) m3 =
                take k (contents v m) @ x # drop k (contents v m) \<and>
              frame v m m3)"
proof -
  obtain b buf where a: "values_ptr v = Ptr b 0" "lookup m b = Some buf" "length buf = max_sz v"
    using assms(1,2) by (rule valid_array)
  have b: "b < length (arrays m)"
    using a(2) by (auto dest: lookup_SomeD)
  obtain m1 buf1 where l: "insert_loop (sz v) k (Ptr b 0) m = Some m1"
    "arrays m1 = (arrays m)[b := Some buf1]" "length buf1 = length buf"
    "\<forall>j<length buf. buf1 ! j = (if k < j \<and> j \<le> sz v then buf ! (j - 1) else buf ! j)"
    using insert_loop_ok [OF a(2), of "sz v" k] assms(2) a(3) by auto
  have "\<exists>m3. store (values_ptr v) k x (m1\<lparr>reads := rs\<rparr>) = Some m3 \<and>
              valid (v\<lparr>sz := sz v + 1\<rparr>) m3 \<and>
              contents (v\<lparr>sz := sz v + 1\<rparr>) m3 =
                take k (contents v m) @ x # drop k (contents v m) \<and>
              frame v m m3" for x rs
  proof -
    define buf2 where "buf2 = buf1[k := x]"
    define m2 where "m2 = m1\<lparr>reads := rs, arrays := (arrays m1)[b := Some buf2]\<rparr>"
    have l1: "lookup (m1\<lparr>reads := rs\<rparr>) b = Some buf1"
      using l(2) b by (simp add: lookup_def)
    have "store (Ptr b 0) k x (m1\<lparr>reads := rs\<rparr>) = Some m2"
      using store_Ptr [OF l1, of 0 k x] assms(2,3) l(3) a(3) by (simp add: m2_def buf2_def)
    moreover have l2: "lookup m2 b = Some buf2"
      using l(2) b by (simp add: m2_def)
    then have "valid (v\<lparr>sz := sz v + 1\<rparr>) m2"
      using a assms(2) l(3) by (simp add: valid_def buf2_def)
    moreover have "contents (v\<lparr>sz := sz v + 1\<rparr>) m2 =
               take k (contents v m) @ x # drop k (contents v m)"
    proof -
      have "take (Suc (sz v)) buf2 = take k (take (sz v) buf) @ x # drop k (take (sz v) buf)"
      proof (rule nth_equalityI)
        show "length (take (Suc (sz v)) buf2) =
            length (take k (take (sz v) buf) @ x # drop k (take (sz v) buf))"
          using assms(2,3) a(3) l(3) by (simp add: buf2_def)
      next
        fix j assume "j < length (take (Suc (sz v)) buf2)"
        then have j: "j \<le> sz v" by simp
        consider "j < k" | "j = k" | "k < j" by linarith
        then show "take (Suc (sz v)) buf2 ! j =
            (take k (take (sz v) buf) @ x # drop k (take (sz v) buf)) ! j"
        proof cases
          case 1
          then show ?thesis
            using j assms(2,3) a(3) l(3,4) by (simp add: buf2_def nth_append)
        next
          case 2
          then show ?thesis
            using j assms(2,3) a(3) l(3) by (simp add: buf2_def nth_append)
        next
          case 3
          then obtain d where d: "j = Suc (k + d)"
            using less_imp_Suc_add by blast
          show ?thesis
            using 3 j assms(2,3) a(3) l(3,4) unfolding d
            by (simp add: buf2_def nth_append)
        qed
      qed
      then show ?thesis
        using a l2 by (simp add: contents_def)
    qed
    moreover have "frame v m m2"
      using a(1) by (rule frame_own_array) (simp add: m2_def l(2))
    ultimately show ?thesis
      using a(1) by auto
  qed
  then show ?thesis
    using l(1) a(1) by auto
qed

lemma insert_ok:
  assumes "valid v m" "const_iterator_minus pos (to_const_iterator (begin_v v)) = Some (int k)"
    "k \<le> sz v"
  shows "\<exists>v' m' x. insert_v v pos val m =
             Some (Inr (Iterator (ptr_add (values_ptr v') k)), v', m') \<and>
           valid v' m' \<and>
           contents v' m' = take k (contents v m) @ x # drop k (contents v m) \<and>
           (\<forall>y. val = Object y \<longrightarrow> x = Some y) \<and>
           sz v' = Suc (sz v) \<and> max_sz v' = grown v \<and> frame v m m'"
proof -
  obtain v1 m1 where g: "(if sz v \<ge> max_sz v
                   then reallocate v (max_sz v + max_sz v div 2 + 1) m
                   else Some (v, m)) = Some (v1, m1)"
    "valid v1 m1" "contents v1 m1 = contents v m" "sz v1 = sz v"
    "max_sz v1 = grown v" "sz v1 < max_sz v1" "frame v m m1"
    "\<forall>c<length (arrays m). Ptr c 0 \<noteq> values_ptr v \<longrightarrow> Ptr c 0 \<noteq> values_ptr v1"
    using grow_ok [OF assms(1)] by blast
  have k1: "k \<le> sz v1"
    using assms(3) g(4) by simp
  obtain m2 where s: "insert_loop (sz v1) k (values_ptr v1) m1 = Some m2"
    "\<forall>x rs. \<exists>m3. store (values_ptr v1) k x (m2\<lparr>reads := rs\<rparr>) = Some m3 \<and>
              valid (v1\<lparr>sz := sz v1 + 1\<rparr>) m3 \<and>
              contents (v1\<lparr>sz := sz v1 + 1\<rparr>) m3 =
                take k (contents v1 m1) @ x # drop k (contents v1 m1) \<and>
              frame v1 m1 m3"
    using insert_shift_ok [OF g(2,6) k1] by blast
  define x where "x = (case val of Object y \<Rightarrow> Some y | Element b off \<Rightarrow> slot_at m2 b off)"
  obtain rs where rd: "read_ref val m2 = Some (x, m2\<lparr>reads := rs\<rparr>)"
    using read_ref_Some [of val m2] unfolding x_def by blast
  obtain m4 where w: "store (values_ptr v1) k x (m2\<lparr>reads := rs\<rparr>) = Some m4"
    "valid (v1\<lparr>sz := sz v1 + 1\<rparr>) m4"
    "contents (v1\<lparr>sz := sz v1 + 1\<rparr>) m4 =
       take k (contents v1 m1) @ x # drop k (contents v1 m1)"
    "frame v1 m1 m4"
    using s(2) by blast
  have "insert_v v pos val m =
      Some (Inr (Iterator (ptr_add (values_ptr (v1\<lparr>sz := sz v1 + 1\<rparr>)) k)),
        v1\<lparr>sz := sz v1 + 1\<rparr>, m4)"
    unfolding insert_v_def using assms(2,3) g(1) s(1) rd w(1)
    by simp
  moreover have "frame v m m4"
    using g(7) w(4) g(8) by (rule frame_trans)
  moreover have "x = Some y" if "val = Object y" for y
    using that by (simp add: x_def)
  ultimately show ?thesis
    using w(2,3) g(3,4,5) by auto
qed

lemma erase_ok:
  assumes "valid v m" "const_iterator_minus pos (to_const_iterator (begin_v v)) = Some (int k)"
    "k < sz v"
  shows "\<exists>v' m'. erase v pos m = Some (Inr (Iterator (ptr_add (values_ptr v') k)), v', m') \<and>
           valid v' m' \<and>
           contents v' m' = take k (contents v m) @ drop (Suc k) (contents v m) \<and>
           sz v' = sz v - 1 \<and> max_sz v' = max_sz v \<and> values_ptr v' = values_ptr v \<and>
           frame v m m'"
proof -
  obtain b buf where a: "values_ptr v = Ptr b 0" "lookup m b = Some buf" "length buf = max_sz v"
    "sz v \<le> max_sz v"
    using assms(1,3) by (cases rule: valid_cases) auto
  have b: "b < length (arrays m)"
    using a(2) by (auto dest: lookup_SomeD)
  obtain m1 buf1 where l: "erase_loop k (sz v) (Ptr b 0) m = Some m1"
    "arrays m1 = (arrays m)[b := Some buf1]" "length buf1 = length buf"
    "\<forall>j<length buf. buf1 ! j =
       (if k \<le> j \<and> j < sz v then (if j + 1 < length buf then buf ! (j + 1) else None)
        else buf ! j)"
    using erase_loop_ok [OF a(2), of "sz v" k] a(3,4) by auto
  define v' where "v' = v\<lparr>sz := sz v - 1\<rparr>"
  have "erase v pos m = Some (Inr (Iterator (ptr_add (values_ptr v') k)), v', m1)"
    unfolding erase_def using assms(2,3) l(1) a(1)
    by (simp add: v'_def)
  moreover have l1: "lookup m1 b = Some buf1"
    using l(2) b by (simp add: lookup_def)
  then have "valid v' m1"
    using a assms(3) l(3) by (simp add: valid_def v'_def)
  moreover have "contents v' m1 = take k (contents v m) @ drop (Suc k) (contents v m)"
  proof -
    have "take (sz v - 1) buf1 = take k (take (sz v) buf) @ drop (Suc k) (take (sz v) buf)"
    proof (rule nth_equalityI)
      show "length (take (sz v - 1) buf1) =
          length (take k (take (sz v) buf) @ drop (Suc k) (take (sz v) buf))"
        using assms(3) a(3,4) l(3) by simp
    next
      fix j assume "j < length (take (sz v - 1) buf1)"
      then have j: "Suc j < sz v" using assms(3) by auto
      show "take (sz v - 1) buf1 ! j =
          (take k (take (sz v) buf) @ drop (Suc k) (take (sz v) buf)) ! j"
      proof (cases "j < k")
        case True
        then show ?thesis
          using j assms(3) a(3,4) l(3,4) by (simp add: nth_append)
      next
        case False
        then obtain d where d: "j = k + d"
          using le_Suc_ex not_less by blast
        show ?thesis
          using False j assms(3) a(3,4) l(3,4) unfolding d
          by (simp add: nth_append)
      qed
    qed
    then show ?thesis
      using a l1 by (simp add: contents_def v'_def)
  qed
  moreover have "frame v m m1"
    using a(1) l(2) by (rule frame_own_array)
  ultimately show ?thesis
    by (simp add: v'_def)
qed

lemma unchanged_valid: "unchanged m m' \<Longrightarrow> valid v m \<Longrightarrow> valid v m'"
  by (cases "values_ptr v")
    (auto simp: unchanged_def valid_def split: option.splits dest!: lookup_SomeD,
      auto simp: lookup_def split: if_splits)

lemma unchanged_contents: "unchanged m m' \<Longrightarrow> valid v m \<Longrightarrow> contents v m' = contents v m"
  by (cases "values_ptr v")
    (auto simp: unchanged_def valid_def contents_def split: option.splits dest!: lookup_SomeD,
      auto simp: lookup_def split: if_splits)

lemma Vector_copy_ok:
  assumes "valid other m"
  shows "\<exists>m'. Vector_copy other m =
            Some (\<lparr>sz = sz other, max_sz = max_sz other,
                   values_ptr = Ptr (length (arrays m)) 0\<rparr>, m') \<and>
          valid \<lparr>sz = sz other, max_sz = max_sz other,
                   values_ptr = Ptr (length (arrays m)) 0\<rparr> m' \<and>
          contents \<lparr>sz = sz other, max_sz = max_sz other,
                   values_ptr = Ptr (length (arrays m)) 0\<rparr> m' = contents other m \<and>
          length (arrays m') = Suc (length (arrays m)) \<and> unchanged m m'"
  using assms
proof (cases rule: valid_cases)
  case null
  define m1 where "m1 = m\<lparr>arrays := arrays m @ [Some (replicate 0 None)]\<rparr>"
  have "Vector_copy other m =
      Some (\<lparr>sz = sz other, max_sz = max_sz other, values_ptr = Ptr (length (arrays m)) 0\<rparr>, m1)"
    using null by (simp add: Vector_copy_def new_array_def copy_loop.simps m1_def)
  moreover have "unchanged m m1"
    by (auto simp: unchanged_def m1_def nth_append lookup_def)
  ultimately show ?thesis
    using null by (auto simp: m1_def contents_def valid_def)
next
  case (array b buf)
  define L where "L = length (arrays m)"
  define n where "n = max_sz other"
  define m1 where "m1 = m\<lparr>arrays := arrays m @ [Some (replicate n None)]\<rparr>"
  define c where "c = \<lparr>sz = sz other, max_sz = max_sz other, values_ptr = Ptr L 0\<rparr>"
  have b: "b < L" "arrays m ! b = Some buf"
    using array(2) by (auto simp: L_def dest: lookup_SomeD)
  have l1: "lookup m1 b = Some buf" "lookup m1 L = Some (replicate n None)"
    using b by (simp_all add: m1_def L_def nth_append)
  obtain m2 buf' where r: "copy_loop 0 (sz other) (Ptr L 0) (Ptr b 0) m1 = Some m2"
    "arrays m2 = (arrays m1)[L := Some buf']" "length buf' = n"
    "\<forall>j<n. buf' ! j = (if j < sz other then buf ! j else replicate n None ! j)"
    using copy_loop_ok [OF l1, of "sz other" 0] b(1) array(3,4) by (auto simp: n_def)
  have "Vector_copy other m = Some (c, m2)"
    using array(1) r(1)
    by (simp add: Vector_copy_def new_array_def m1_def [symmetric] L_def [symmetric]
        n_def [symmetric] c_def)
  moreover have l2: "lookup m2 L = Some buf'"
    using r(2) by (simp add: m1_def L_def lookup_def)
  then have "valid c m2"
    using r(3) array(4) by (simp add: valid_def c_def n_def)
  moreover have "contents c m2 = contents other m"
    using l2 r(3,4) array by (simp add: contents_def c_def take_eqI n_def)
  moreover have "length (arrays m2) = Suc L"
    using r(2) by (simp add: m1_def L_def)
  moreover have "unchanged m m2"
    using r(2) by (auto simp: unchanged_def m1_def L_def lookup_def nth_list_update nth_append)
  ultimately show ?thesis
    unfolding c_def L_def by blast
qed

lemma frame_valid:
  "frame v m m' \<Longrightarrow> valid w m \<Longrightarrow> separate v w \<Longrightarrow> valid w m'"
  by (cases "values_ptr w"; cases "values_ptr v")
    (auto simp: frame_def valid_def separate_def lookup_def split: option.splits if_splits)

lemma frame_contents:
  "frame v m m' \<Longrightarrow> valid w m \<Longrightarrow> separate v w \<Longrightarrow> contents w m' = contents w m"
  by (cases "values_ptr w"; cases "values_ptr v")
    (auto simp: frame_def valid_def contents_def separate_def lookup_def
      split: option.splits if_splits)

lemma assign_ok:
  assumes "valid this m" "valid src m"
  shows "\<exists>m'. assign this src m =
            Some (\<lparr>sz = sz src, max_sz = max_sz src,
                   values_ptr = Ptr (length (arrays m)) 0\<rparr>, m') \<and>
          valid \<lparr>sz = sz src, max_sz = max_sz src,
                   values_ptr = Ptr (length (arrays m)) 0\<rparr> m' \<and>
          contents \<lparr>sz = sz src, max_sz = max_sz src,
                   values_ptr = Ptr (length (arrays m)) 0\<rparr> m' = contents src m \<and>
          length (arrays m') = Suc (length (arrays m)) \<and> frame this m m'"
proof -
  define c where "c = \<lparr>sz = sz src, max_sz = max_sz src, values_ptr = Ptr (length (arrays m)) 0\<rparr>"
  obtain m1 where r: "Vector_copy src m = Some (c, m1)" "valid c m1"
    "contents c m1 = contents src m" "length (arrays m1) = Suc (length (arrays m))"
    "unchanged m m1"
    using Vector_copy_ok [OF assms(2)] unfolding c_def by blast
  have t1: "valid this m1"
    using r(5) assms(1) by (rule unchanged_valid)
  have ne: "separate this c"
    using assms(1) by (cases rule: valid_cases) (auto simp: c_def separate_def dest: lookup_SomeD)
  obtain m2 where d: "delete_array (values_ptr this) m1 = Some m2" "frame this m1 m2"
    "length (arrays m2) = length (arrays m1)"
    using t1
  proof (cases rule: valid_cases)
    case null
    then show ?thesis
      using that [of m1] by (simp add: delete_array_def frame_refl)
  next
    case (array b buf)
    then show ?thesis
      using that [of "m1\<lparr>arrays := (arrays m1)[b := None]\<rparr>"]
      by (simp add: delete_array_def frame_own_array)
  qed
  have "assign this src m = Some (c, m2)"
    using r(1) d(1) by (simp add: assign_def Vector_destroy_def c_def)
  moreover have "valid c m2"
    using d(2) r(2) ne by (rule frame_valid)
  moreover have "contents c m2 = contents src m"
    using frame_contents [OF d(2) r(2) ne] r(3) by simp
  moreover have "frame this m m2"
    using r(5) d(2,3) r(4) by (auto simp: frame_def unchanged_def)
  ultimately show ?thesis
    using d(3) r(4) unfolding c_def by auto
qed

lemma read_at_ok:
  assumes "valid v m" "i < sz v"
  shows "\<exists>m'. read_at v i m = Some (Inr (contents v m ! i), v, m') \<and> arrays m' = arrays m"
proof -
  obtain b buf where a: "values_ptr v = Ptr b 0" "lookup m b = Some buf" "length buf = max_sz v"
    "sz v \<le> max_sz v"
    using assms by (cases rule: valid_cases) auto
  have "load (Ptr b i) 0 m = Some (buf ! i, m\<lparr>reads := (b, i) # reads m\<rparr>)"
    using load_Ptr [OF a(2), of i 0] assms(2) a(3,4) by simp
  then show ?thesis
    using assms(2) a by (simp add: read_at_def subscript_def ptr_add_def contents_def)
qed

lemma reserve_ok:
  assumes "valid v m"
  shows "\<exists>v' m'. reserve v n m = Some (v', m') \<and> valid v' m' \<and>
           contents v' m' = contents v m \<and> sz v' = sz v \<and> max_sz v' = max n (max_sz v)"
proof (cases "n > max_sz v")
  case False
  then show ?thesis
    using assms by (simp add: reserve_def max_def)
next
  case True
  then have "sz v \<le> n"
    using assms by (simp add: valid_def)
  then obtain m' buf' where r: "reallocate v n m =
      Some (v\<lparr>values_ptr := Ptr (length (arrays m)) 0, max_sz := n\<rparr>, m')"
    "lookup m' (length (arrays m)) = Some buf'" "length buf' = n"
    "take (sz v) buf' = contents v m"
    using reallocate_ok [OF assms, of n] by blast
  show ?thesis
    using True r \<open>sz v \<le> n\<close> by (simp add: reserve_def valid_def contents_def max_def)
qed

lemma shrink_to_fit_ok:
  assumes "valid v m"
  shows "\<exists>v' m'. shrink_to_fit v m = Some (v', m') \<and> valid v' m' \<and>
           contents v' m' = contents v m \<and> sz v' = sz v \<and> max_sz v' = sz v"
proof (cases "sz v < max_sz v")
  case False
  then show ?thesis
    using assms by (simp add: shrink_to_fit_def valid_def)
next
  case True
  obtain m' buf' where r: "reallocate v (sz v) m =
      Some (v\<lparr>values_ptr := Ptr (length (arrays m)) 0, max_sz := sz v\<rparr>, m')"
    "lookup m' (length (arrays m)) = Some buf'" "length buf' = sz v"
    "take (sz v) buf' = contents v m"
    using reallocate_ok [OF assms, of "sz v"] by blast
  show ?thesis
    using True r by (simp add: shrink_to_fit_def valid_def contents_def)
qed

lemma Vector_n_ok:
  "\<exists>v' m'. Vector_n n m = (v', m') \<and> valid v' m' \<and> contents v' m' = [] \<and>
     sz v' = 0 \<and> max_sz v' = n"
  by (simp add: Vector_n_def new_array_def valid_def contents_def)

lemma Vector_il_ok:
  "\<exists>v' m'. Vector_il il m = Some (v', m') \<and> valid v' m' \<and> contents v' m' = map Some il \<and>
     sz v' = length il \<and> max_sz v' = length il"
proof -
  define L where "L = length (arrays m)"
  define n where "n = length il"
  define m1 where "m1 = m\<lparr>arrays := arrays m @ [Some (replicate n None)]\<rparr>"
  define v' where "v' = \<lparr>sz = n, max_sz = n, values_ptr = Ptr L 0\<rparr>"
  have l1: "lookup m1 L = Some (replicate n None)"
    by (simp add: m1_def L_def)
  obtain m2 buf' where f: "fill_loop 0 il (Ptr L 0) m1 = Some m2"
    "arrays m2 = (arrays m1)[L := Some buf']" "length buf' = n"
    "\<forall>j<n. buf' ! j = (if j < length il then Some (il ! j) else replicate n None ! j)"
    using fill_loop_ok [OF l1, of 0 il] by (auto simp: n_def)
  have "Vector_il il m = Some (v', m2)"
    using f(1)
    by (simp add: Vector_il_def new_array_def v'_def n_def [symmetric] m1_def [symmetric]
        L_def [symmetric])
  moreover have l2: "lookup m2 L = Some buf'"
    using f(2) by (simp add: m1_def L_def lookup_def)
  then have "valid v' m2"
    using f(3) by (simp add: valid_def v'_def)
  moreover have "buf' = map Some il"
    using f(3,4) by (intro nth_equalityI) (auto simp: n_def)
  then have "contents v' m2 = map Some il"
    using l2 by (simp add: contents_def v'_def n_def)
  ultimately show ?thesis
    by (auto simp: v'_def n_def)
qed

lemma pop_back_ok:
  assumes "valid v m" "sz v \<noteq> 0"
  shows "\<exists>v'. pop_back v m = (Inr (), v', m) \<and> valid v' m \<and>
           contents v' m = butlast (contents v m) \<and> sz v' = sz v - 1 \<and> max_sz v' = max_sz v"
proof -
  have "valid (v\<lparr>sz := sz v - 1\<rparr>) m"
    using assms(1) by (auto simp: valid_def split: ptr.splits option.splits)
  moreover have "contents (v\<lparr>sz := sz v - 1\<rparr>) m = butlast (contents v m)"
    using assms by (cases rule: valid_cases) (auto simp: contents_def butlast_take)
  ultimately show ?thesis
    using assms(2) by (simp add: pop_back_def)
qed

lemma clear_ok: "valid v m \<Longrightarrow> valid (clear v) m \<and> contents (clear v) m = []"
  by (auto simp: clear_def valid_def contents_def split: ptr.splits option.splits)

lemma valid_default: "valid Vector_default m"
  by (simp add: valid_def Vector_default_def)

lemma push_back_all_ok:
  assumes "valid v m"
  shows "\<exists>v' m'. push_back_all v (map Object xs) m = Some (v', m') \<and> valid v' m' \<and>
           contents v' m' = contents v m @ map Some xs \<and> sz v' = sz v + length xs"
  using assms
proof (induction xs arbitrary: v m)
  case Nil
  then show ?case by simp
next
  case (Cons x xs)
  obtain v1 m1 y where p: "push_back v (Object x) m = Some (v1, m1)" "valid v1 m1"
    "contents v1 m1 = contents v m @ [y]" "sz v1 = Suc (sz v)"
    "\<forall>z. Object x = Object z \<longrightarrow> y = Some z"
    using push_back_ok [OF Cons.prems, of "Object x"] by blast
  have y: "y = Some x"
    using p(5) by simp
  obtain v' m' where r: "push_back_all v1 (map Object xs) m1 = Some (v', m')" "valid v' m'"
    "contents v' m' = contents v1 m1 @ map Some xs" "sz v' = sz v1 + length xs"
    using Cons.IH [OF p(2)] by blast
  have "push_back_all v (map Object (x # xs)) m = Some (v', m')"
    using p(1) r(1) by simp
  then show ?case
    using r(2,3,4) p(3,4) y by simp
qed

section \<open>Further facts used by the claims\<close>

lemma pop_back_throws: "(\<exists>e s. pop_back v m = (Inl e, s)) = (sz v = 0)"
  by (simp add: pop_back_def)

lemma subscript_throws: "(\<exists>e s. subscript v i m = Some (Inl e, s)) = (i \<ge> sz v)"
  by (auto simp: subscript_def)

lemma insert_v_throws:
  "insert_v v pos val m = Some (Inl e, v', m') \<Longrightarrow> v' = v \<and> m' = m"
  unfolding insert_v_def
  by (auto simp: bind_eq_Some_conv Let_def split: if_splits)

lemma erase_throws:
  "erase v pos m = Some (Inl e, v', m') \<Longrightarrow> v' = v \<and> m' = m"
  unfolding erase_def
  by (auto simp: bind_eq_Some_conv Let_def split: if_splits)

lemma subscript_throws_state:
  "subscript v i m = Some (Inl e, v', m') \<Longrightarrow> v' = v \<and> m' = m"
  unfolding subscript_def
  by (auto split: if_splits)

lemma length_contents: "valid v m \<Longrightarrow> length (contents v m) = sz v"
  by (cases rule: valid_cases) (auto simp: contents_def)

lemma deref_at_offset:
  assumes "valid v m" "k < sz v"
  shows "\<exists>m'. load (ptr_add (values_ptr v) k) 0 m = Some (contents v m ! k, m')"
proof -
  obtain b buf where a: "values_ptr v = Ptr b 0" "lookup m b = Some buf" "length buf = max_sz v"
    "sz v \<le> max_sz v"
    using assms(1,2) by (cases rule: valid_cases) auto
  show ?thesis
    using load_Ptr [OF a(2), of k 0] assms(2) a by (simp add: contents_def ptr_add_def)
qed

lemma advance_begin: "(iterator_pre_inc ^^ k) (Iterator p) = Iterator (ptr_add p k)"
proof (induction k)
  case 0
  show ?case
    by (cases p) (simp_all add: ptr_add_def)
next
  case (Suc k)
  then show ?case
    by (cases p) (simp_all add: iterator_pre_inc_def ptr_add_def)
qed

lemma separate_fresh:
  "valid v m \<Longrightarrow> separate v \<lparr>sz = s, max_sz = c, values_ptr = Ptr (length (arrays m)) 0\<rparr>"
  by (cases rule: valid_cases) (auto simp: separate_def dest: lookup_SomeD)

lemma push_back_elsewhere:
  assumes "valid src m" "valid c m" "separate src c"
  shows "\<exists>src' m' x. push_back src el m = Some (src', m') \<and> valid c m' \<and>
           contents c m' = contents c m \<and> contents src' m' = contents src m @ [x] \<and>
           (\<forall>y. el = Object y \<longrightarrow> x = Some y)"
proof -
  obtain src' m' x where p: "push_back src el m = Some (src', m')"
    "contents src' m' = contents src m @ [x]" "frame src m m'"
    "\<forall>y. el = Object y \<longrightarrow> x = Some y"
    using push_back_ok [OF assms(1), of el] by blast
  have "valid c m'"
    using p(3) assms(2,3) by (rule frame_valid)
  moreover have "contents c m' = contents c m"
    using p(3) assms(2,3) by (rule frame_contents)
  ultimately show ?thesis
    using p(1,2,4) by blast
qed

lemma reallocate_fields:
  "reallocate v n m = Some (v', m') \<Longrightarrow>
   sz v' = sz v \<and> max_sz v' = (if n < sz v then max_sz v else n)"
  by (auto simp: reallocate_def new_array_def bind_eq_Some_conv split: if_splits)

lemma grow_fields:
  assumes "sz v \<le> max_sz v"
    "(if sz v \<ge> max_sz v then reallocate v (max_sz v + max_sz v div 2 + 1) m else Some (v, m)) =
       Some (v1, m1)"
  shows "sz v1 = sz v \<and> sz v1 < max_sz v1"
proof (cases "sz v \<ge> max_sz v")
  case True
  then have "reallocate v (max_sz v + max_sz v div 2 + 1) m = Some (v1, m1)"
    using assms(2) by simp
  from reallocate_fields [OF this] show ?thesis
    using assms(1) True by simp
next
  case False
  then show ?thesis
    using assms(2) by auto
qed

lemma push_back_fields:
  assumes "sz v \<le> max_sz v" "push_back v el m = Some (v', m')"
  shows "sz v' \<le> max_sz v'"
proof -
  obtain v1 m1 where g:
    "(if sz v \<ge> max_sz v then reallocate v (max_sz v + max_sz v div 2 + 1) m else Some (v, m)) =
       Some (v1, m1)" and v': "v' = v1\<lparr>sz := sz v1 + 1\<rparr>"
    using assms(2) unfolding push_back_def by (auto simp: bind_eq_Some_conv)
  from grow_fields [OF assms(1) g] show ?thesis
    by (simp add: v')
qed

lemma insert_v_fields:
  assumes "sz v \<le> max_sz v" "insert_v v pos val m = Some (r, v', m')"
  shows "sz v' \<le> max_sz v'"
proof (cases r)
  case (Inl e)
  then show ?thesis
    using insert_v_throws [of v pos val m e v' m'] assms by simp
next
  case (Inr it)
  then obtain v1 m1 where g:
    "(if sz v \<ge> max_sz v then reallocate v (max_sz v + max_sz v div 2 + 1) m else Some (v, m)) =
       Some (v1, m1)" and v': "v' = v1\<lparr>sz := sz v1 + 1\<rparr>"
    using assms(2) unfolding insert_v_def
    by (auto simp: bind_eq_Some_conv Let_def split: if_splits)
  from grow_fields [OF assms(1) g] show ?thesis
    by (simp add: v')
qed

lemma erase_fields:
  assumes "sz v \<le> max_sz v" "erase v pos m = Some (r, v', m')"
  shows "sz v' \<le> max_sz v'"
proof (cases r)
  case (Inl e)
  then show ?thesis
    using erase_throws [of v pos m e v' m'] assms by simp
next
  case (Inr it)
  then have "v' = v\<lparr>sz := sz v - 1\<rparr>"
    using assms(2) unfolding erase_def
    by (auto simp: bind_eq_Some_conv Let_def split: if_splits)
  then show ?thesis
    using assms(1) by simp
qed

lemma Vector_copy_fields:
  "Vector_copy other m = Some (v', m') \<Longrightarrow> sz v' = sz other \<and> max_sz v' = max_sz other"
  by (auto simp: Vector_copy_def new_array_def bind_eq_Some_conv)

lemma assign_fields:
  "assign this src m = Some (v', m') \<Longrightarrow> sz v' = sz src \<and> max_sz v' = max_sz src"
  by (auto simp: assign_def bind_eq_Some_conv dest: Vector_copy_fields)

lemma Vector_il_fields:
  "Vector_il il m = Some (v', m') \<Longrightarrow> sz v' = length il \<and> max_sz v' = length il"
  by (auto simp: Vector_il_def new_array_def bind_eq_Some_conv)

lemma erase_loop_reads_end:
  assumes "lookup m b = Some buf" "n \<le> length buf" "i < n"
  shows "\<exists>m'. erase_loop i n (Ptr b 0) m = Some m' \<and> (b, n) \<in> set (reads m')"
  using assms
proof (induction "n - i" arbitrary: i m buf)
  case 0
  then show ?case by simp
next
  case (Suc k)
  define x where "x = slot_at m b (Suc i)"
  define m1 where "m1 = m\<lparr>reads := (b, Suc i) # reads m\<rparr>"
  define buf1 where "buf1 = buf[i := x]"
  define m2 where "m2 = m1\<lparr>arrays := (arrays m1)[b := Some buf1]\<rparr>"
  have ld: "load (Ptr b 0) (i + 1) m = Some (x, m1)"
    by (simp add: load_def m1_def x_def)
  have st: "store (Ptr b 0) i x m1 = Some m2"
    using store_Ptr [of m1 b buf 0 i] Suc.prems by (simp add: m1_def m2_def buf1_def)
  have step: "erase_loop i n (Ptr b 0) m = erase_loop (Suc i) n (Ptr b 0) m2"
    using Suc.prems(3) ld st by (subst erase_loop.simps) simp
  show ?case
  proof (cases "Suc i < n")
    case False
    then have "Suc i = n"
      using Suc.prems(3) by simp
    then have "erase_loop (Suc i) n (Ptr b 0) m2 = Some m2" "(b, n) \<in> set (reads m2)"
      by (subst erase_loop.simps, simp_all add: m2_def m1_def)
    then show ?thesis
      using step by simp
  next
    case True
    have b: "b < length (arrays m)"
      using Suc.prems(1) by (auto dest: lookup_SomeD)
    have "lookup m2 b = Some buf1"
      using b by (simp add: m2_def m1_def)
    moreover have "n \<le> length buf1"
      using Suc.prems(2) by (simp add: buf1_def)
    moreover have "k = n - Suc i"
      using Suc.hyps(2) by simp
    ultimately show ?thesis
      using Suc.hyps(1) [of "Suc i" m2 buf1] True step by simp
  qed
qed

lemma push_back_values:
  "\<exists>v m'. push_back_all Vector_default (map Object xs) m = Some (v, m') \<and>
     size_v v = length xs \<and>
     (\<forall>i<length xs. \<exists>m''. read_at v i m' = Some (Inr (Some (xs ! i)), v, m''))"
proof -
  obtain v m' where r: "push_back_all Vector_default (map Object xs) m = Some (v, m')"
    "valid v m'" "contents v m' = contents Vector_default m @ map Some xs"
    "sz v = sz Vector_default + length xs"
    using push_back_all_ok [OF valid_default, of xs m] by blast
  have c: "contents v m' = map Some xs" and s: "sz v = length xs"
    using r(3,4) by (simp_all add: contents_def Vector_default_def)
  have "\<exists>m''. read_at v i m' = Some (Inr (Some (xs ! i)), v, m'')" if "i < length xs" for i
    using read_at_ok [OF r(2), of i] that c s by auto
  then show ?thesis
    using r(1) s by (auto simp: size_v_def)
qed

section \<open>The claims\<close>

text \<open>
  C1. The claim is that after any sequence of \<^verbatim>\<open>push_back\<close> calls on a default-constructed
  container, indexed access at \<open>i\<close> returns the \<open>i\<close>-th value appended. It holds when
  every argument is an object outside the container (\<open>push_back_values\<close>). It fails when
  an argument is a reference to an element of the container itself and the container is
  full: \<^verbatim>\<open>push_back\<close> reads the reference after \<^verbatim>\<open>reallocate\<close> has deleted the array it
  points into, so on a valid container whose size equals its capacity,
  \<^verbatim>\<open>v.push_back(v[j])\<close> returns with the size one larger and garbage, not the value of
  \<^verbatim>\<open>v[j]\<close>, in the last slot.
\<close>

theorem push_back_of_own_element:
  assumes "valid v m" "size_v v = capacity v" "values_ptr v = Ptr b 0" "j < size_v v"
  shows "\<exists>v' m' m''. push_back v (Element b j) m = Some (v', m') \<and>
           size_v v' = size_v v + 1 \<and>
           read_at v' (size_v v) m' = Some (Inr None, v', m'')"
proof -
  obtain v' m' x where p: "push_back v (Element b j) m = Some (v', m')" "valid v' m'"
    "contents v' m' = contents v m @ [x]" "sz v' = Suc (sz v)"
    "\<forall>c off. Element b j = Element c off \<and> sz v = max_sz v \<and> values_ptr v = Ptr c 0 \<longrightarrow>
       x = None"
    using push_back_ok [OF assms(1), of "Element b j"] by blast
  have x: "x = None"
    using p(5) assms(2,3) by (simp add: size_v_def capacity_def)
  have "contents v' m' ! sz v = None"
    using length_contents [OF assms(1)] by (simp add: p(3) x nth_append)
  moreover obtain m'' where "read_at v' (sz v) m' = Some (Inr (contents v' m' ! sz v), v', m'')"
    using read_at_ok [OF p(2), of "sz v"] p(4) by auto
  ultimately show ?thesis
    using p(1,4) by (auto simp: size_v_def)
qed

theorem push_back_of_own_element_witness:
  "push_back Vector_default (Object 42) \<lparr>arrays = [], reads = []\<rparr> =
     Some (\<lparr>sz = 1, max_sz = 1, values_ptr = Ptr 0 0\<rparr>,
       \<lparr>arrays = [Some [Some (42::nat)]], reads = []\<rparr>) \<and>
   subscript \<lparr>sz = 1, max_sz = 1, values_ptr = Ptr 0 0\<rparr> 0
       \<lparr>arrays = [Some [Some (42::nat)]], reads = []\<rparr> =
     Some (Inr (Ptr 0 0), \<lparr>sz = 1, max_sz = 1, values_ptr = Ptr 0 0\<rparr>,
       \<lparr>arrays = [Some [Some 42]], reads = []\<rparr>) \<and>
   push_back \<lparr>sz = 1, max_sz = 1, values_ptr = Ptr 0 0\<rparr> (Element 0 0)
       \<lparr>arrays = [Some [Some (42::nat)]], reads = []\<rparr> =
     Some (\<lparr>sz = 2, max_sz = 2, values_ptr = Ptr 1 0\<rparr>,
       \<lparr>arrays = [None, Some [Some 42, None]], reads = [(0, 0), (0, 0)]\<rparr>) \<and>
   read_at \<lparr>sz = 2, max_sz = 2, values_ptr = Ptr 1 0\<rparr> 1
       \<lparr>arrays = [None, Some [Some (42::nat), None]], reads = [(0, 0), (0, 0)]\<rparr> =
     Some (Inr None, \<lparr>sz = 2, max_sz = 2, values_ptr = Ptr 1 0\<rparr>,
       \<lparr>arrays = [None, Some [Some 42, None]], reads = [(1, 1), (0, 0), (0, 0)]\<rparr>)"
proof -
  let ?v = "\<lparr>sz = 1, max_sz = 1, values_ptr = Ptr 0 0\<rparr>"
  let ?m = "\<lparr>arrays = [Some [Some (42::nat)]], reads = []\<rparr>"
  have a: "valid ?v ?m"
    by (simp add: valid_def lookup_def)
  have b: "size_v ?v = capacity ?v" "values_ptr ?v = Ptr 0 0" "0 < size_v ?v"
    by (simp_all add: size_v_def capacity_def)
  have 1: "push_back Vector_default (Object 42) \<lparr>arrays = [], reads = []\<rparr> = Some (?v, ?m)"
    by code_simp
  have 2: "subscript ?v 0 ?m = Some (Inr (Ptr 0 0), ?v, ?m)"
    by code_simp
  have 3: "push_back ?v (Element 0 0) ?m =
     Some (\<lparr>sz = 2, max_sz = 2, values_ptr = Ptr 1 0\<rparr>,
       \<lparr>arrays = [None, Some [Some 42, None]], reads = [(0, 0), (0, 0)]\<rparr>)"
    by code_simp
  have 4: "read_at \<lparr>sz = 2, max_sz = 2, values_ptr = Ptr 1 0\<rparr> 1
       \<lparr>arrays = [None, Some [Some (42::nat), None]], reads = [(0, 0), (0, 0)]\<rparr> =
     Some (Inr None, \<lparr>sz = 2, max_sz = 2, values_ptr = Ptr 1 0\<rparr>,
       \<lparr>arrays = [None, Some [Some 42, None]], reads = [(1, 1), (0, 0), (0, 0)]\<rparr>)"
    by code_simp
  show ?thesis
    using push_back_of_own_element [OF a b] 1 2 3 4 by simp
qed

text \<open>
  C2. On a valid container whose size equals its capacity, \<^verbatim>\<open>push_back\<close> of any reference, and
  \<^verbatim>\<open>insert\<close> at a position whose offset from \<^verbatim>\<open>begin()\<close> is some \<open>k \<le> size\<close>, return with the
  container in an array of exactly \<open>capacity + capacity div 2 + 1\<close> slots, so capacity 0
  becomes capacity 1; when the size is below the capacity both leave the capacity as it is.
\<close>

theorem growth_policy:
  assumes "valid v m"
  shows "(size_v v = capacity v \<longrightarrow>
            (\<exists>v' m'. push_back v el m = Some (v', m') \<and> valid v' m' \<and>
               capacity v' = capacity v + capacity v div 2 + 1)) \<and>
         (capacity v = 0 \<longrightarrow>
            (\<exists>v' m'. push_back v el m = Some (v', m') \<and> valid v' m' \<and> capacity v' = 1)) \<and>
         (size_v v < capacity v \<longrightarrow>
            (\<exists>v' m'. push_back v el m = Some (v', m') \<and> valid v' m' \<and>
               capacity v' = capacity v)) \<and>
         (const_iterator_minus pos (to_const_iterator (begin_v v)) = Some (int k) \<and>
          k \<le> size_v v \<longrightarrow>
            (size_v v = capacity v \<longrightarrow>
               (\<exists>r v' m'. insert_v v pos val m = Some (Inr r, v', m') \<and> valid v' m' \<and>
                  capacity v' = capacity v + capacity v div 2 + 1)) \<and>
            (size_v v < capacity v \<longrightarrow>
               (\<exists>r v' m'. insert_v v pos val m = Some (Inr r, v', m') \<and> valid v' m' \<and>
                  capacity v' = capacity v)))"
proof -
  obtain v' m' where p: "push_back v el m = Some (v', m')" "valid v' m'" "max_sz v' = grown v"
    using push_back_ok [OF assms, of el] by blast
  have z: "max_sz v = 0 \<Longrightarrow> sz v = 0"
    using assms by (simp add: valid_def)
  show ?thesis
  proof (cases "const_iterator_minus pos (to_const_iterator (begin_v v)) = Some (int k) \<and>
          k \<le> sz v")
    case False
    then show ?thesis
      using p z by (auto simp: size_v_def capacity_def grown_def)
  next
    case True
    then obtain r w mw where i: "insert_v v pos val m = Some (Inr r, w, mw)"
      "valid w mw" "max_sz w = grown v"
      using insert_ok [OF assms, of pos k val] by blast
    show ?thesis
      using p i z by (auto simp: size_v_def capacity_def grown_def)
  qed
qed

theorem growth_policy_witness:
  "(\<exists>v' m'. push_back Vector_default (Object (7::nat)) \<lparr>arrays = [], reads = []\<rparr> = Some (v', m') \<and>
      capacity v' = 1) \<and>
   (\<exists>r v' m'. insert_v Vector_default (ConstIterator (Null 0)) (Object (7::nat)) \<lparr>arrays = [], reads = []\<rparr> =
      Some (Inr r, v', m') \<and> capacity v' = 1) \<and>
   (\<exists>v' m'. push_back \<lparr>sz = 2, max_sz = 2, values_ptr = Ptr 0 0\<rparr> (Object (7::nat))
        \<lparr>arrays = [Some [Some 4, Some 5]], reads = []\<rparr> = Some (v', m') \<and> capacity v' = 4) \<and>
   (\<exists>v' m'. push_back \<lparr>sz = 1, max_sz = 3, values_ptr = Ptr 0 0\<rparr> (Object (7::nat))
        \<lparr>arrays = [Some [Some 4, None, None]], reads = []\<rparr> = Some (v', m') \<and> capacity v' = 3) \<and>
   (\<exists>r v' m'. insert_v \<lparr>sz = 1, max_sz = 3, values_ptr = Ptr 0 0\<rparr> (ConstIterator (Ptr 0 1)) (Object (7::nat))
        \<lparr>arrays = [Some [Some 4, None, None]], reads = []\<rparr> = Some (Inr r, v', m') \<and>
      capacity v' = 3)"
proof -
  have a: "valid Vector_default (\<lparr>arrays = [], reads = []\<rparr> :: nat mem)"
    by (simp add: valid_def Vector_default_def)
  have b: "valid \<lparr>sz = 2, max_sz = 2, values_ptr = Ptr 0 0\<rparr>
      \<lparr>arrays = [Some [Some 4, Some (5::nat)]], reads = []\<rparr>"
    by (simp add: valid_def lookup_def)
  have c: "valid \<lparr>sz = 1, max_sz = 3, values_ptr = Ptr 0 0\<rparr>
      \<lparr>arrays = [Some [Some (4::nat), None, None]], reads = []\<rparr>"
    by (simp add: valid_def lookup_def)
  show ?thesis
    using growth_policy [OF a, where el = "Object 7" and val = "Object 7" and pos = "ConstIterator (Null 0)" and k = 0]
      growth_policy [OF b, where el = "Object 7" and val = "Object 7" and pos = "ConstIterator (Null 0)" and k = 0]
      growth_policy [OF c, where el = "Object 7" and val = "Object 7" and pos = "ConstIterator (Ptr 0 1)" and k = 1]
    by (simp add: size_v_def capacity_def Vector_default_def const_iterator_minus_def
        to_const_iterator_def begin_v_def ptr_diff_def) blast
qed

text \<open>
  C3. Size is at most capacity in every container a constructor produces (default, with
  a capacity, from an initializer list, copy of a container that satisfies it), and every
  operation that is applied to a container satisfying it and yields a state (by returning
  or by throwing) yields one that satisfies it: copy construction, assignment,
  \<^verbatim>\<open>push_back\<close>, \<^verbatim>\<open>pop_back\<close>, \<^verbatim>\<open>insert\<close>, \<^verbatim>\<open>erase\<close>, \<^verbatim>\<open>clear\<close>, \<^verbatim>\<open>reserve\<close>,
  \<^verbatim>\<open>shrink_to_fit\<close>. That these operations do yield a state on a valid container is
  the content of the lemmas \<open>push_back_ok\<close>, \<open>insert_ok\<close>, \<open>erase_ok\<close>, \<open>reserve_ok\<close>,
  \<open>shrink_to_fit_ok\<close>, \<open>Vector_copy_ok\<close> and \<open>assign_ok\<close>.
\<close>

theorem size_le_capacity:
  "size_v Vector_default \<le> capacity Vector_default \<and>
   (\<forall>v' m'. Vector_n n m = (v', m') \<longrightarrow> size_v v' \<le> capacity v') \<and>
   (\<forall>v' m'. Vector_il il m = Some (v', m') \<longrightarrow> size_v v' \<le> capacity v') \<and>
   (size_v v \<le> capacity v \<longrightarrow>
      (\<forall>v' m'. Vector_copy v m = Some (v', m') \<longrightarrow> size_v v' \<le> capacity v') \<and>
      (\<forall>this v' m'. assign this v m = Some (v', m') \<longrightarrow> size_v v' \<le> capacity v') \<and>
      (\<forall>v' m'. push_back v el m = Some (v', m') \<longrightarrow> size_v v' \<le> capacity v') \<and>
      (\<forall>r v' m'. pop_back v m = (r, v', m') \<longrightarrow> size_v v' \<le> capacity v') \<and>
      (\<forall>r v' m'. insert_v v pos val m = Some (r, v', m') \<longrightarrow> size_v v' \<le> capacity v') \<and>
      (\<forall>r v' m'. erase v pos m = Some (r, v', m') \<longrightarrow> size_v v' \<le> capacity v') \<and>
      size_v (clear v) \<le> capacity (clear v) \<and>
      (\<forall>v' m'. reserve v n m = Some (v', m') \<longrightarrow> size_v v' \<le> capacity v') \<and>
      (\<forall>v' m'. shrink_to_fit v m = Some (v', m') \<longrightarrow> size_v v' \<le> capacity v'))"
proof -
  have d: "sz Vector_default \<le> max_sz Vector_default"
    by (simp add: Vector_default_def)
  have n: "\<forall>v' m'. Vector_n n m = (v', m') \<longrightarrow> sz v' \<le> max_sz v'"
    by (auto simp: Vector_n_def new_array_def)
  have il: "\<forall>v' m'. Vector_il il m = Some (v', m') \<longrightarrow> sz v' \<le> max_sz v'"
    by (auto dest: Vector_il_fields)
  have cp: "\<forall>v' m'. Vector_copy v m = Some (v', m') \<longrightarrow> sz v' \<le> max_sz v'"
    if "sz v \<le> max_sz v"
    using that by (auto dest: Vector_copy_fields)
  have as: "\<forall>this v' m'. assign this v m = Some (v', m') \<longrightarrow> sz v' \<le> max_sz v'"
    if "sz v \<le> max_sz v"
    using that by (auto dest: assign_fields)
  have pb: "\<forall>v' m'. push_back v el m = Some (v', m') \<longrightarrow> sz v' \<le> max_sz v'"
    if "sz v \<le> max_sz v"
    using that by (auto dest: push_back_fields)
  have pp: "\<forall>r v' m'. pop_back v m = (r, v', m') \<longrightarrow> sz v' \<le> max_sz v'"
    if "sz v \<le> max_sz v"
    using that by (auto simp: pop_back_def split: if_splits)
  have ins: "\<forall>r v' m'. insert_v v pos val m = Some (r, v', m') \<longrightarrow> sz v' \<le> max_sz v'"
    if "sz v \<le> max_sz v"
    using that by (auto dest: insert_v_fields)
  have er: "\<forall>r v' m'. erase v pos m = Some (r, v', m') \<longrightarrow> sz v' \<le> max_sz v'"
    if "sz v \<le> max_sz v"
    using that by (auto dest: erase_fields)
  have cl: "sz (clear v) \<le> max_sz (clear v)"
    by (simp add: clear_def)
  have rs: "\<forall>v' m'. reserve v n m = Some (v', m') \<longrightarrow> sz v' \<le> max_sz v'"
    if "sz v \<le> max_sz v"
    using that by (auto simp: reserve_def split: if_splits dest!: reallocate_fields)
  have sh: "\<forall>v' m'. shrink_to_fit v m = Some (v', m') \<longrightarrow> sz v' \<le> max_sz v'"
    if "sz v \<le> max_sz v"
    using that by (auto simp: shrink_to_fit_def split: if_splits dest!: reallocate_fields)
  show ?thesis
    unfolding size_v_def capacity_def
    by (intro conjI impI) (rule d n il cl | erule cp as pb pp ins er rs sh)+
qed

theorem size_le_capacity_witness:
  "(\<exists>v' m'. Vector_n 3 \<lparr>arrays = [Some [Some (5::nat), None]], reads = []\<rparr> = (v', m') \<and> size_v v' \<le> capacity v') \<and>
   (\<exists>v' m'. Vector_il [1, 2] \<lparr>arrays = [Some [Some (5::nat), None]], reads = []\<rparr> = Some (v', m') \<and> size_v v' \<le> capacity v') \<and>
   (\<exists>v' m'. Vector_copy \<lparr>sz = 1, max_sz = 2, values_ptr = Ptr 0 0\<rparr> \<lparr>arrays = [Some [Some (5::nat), None]], reads = []\<rparr> = Some (v', m') \<and> size_v v' \<le> capacity v') \<and>
   (\<exists>v' m'. assign Vector_default \<lparr>sz = 1, max_sz = 2, values_ptr = Ptr 0 0\<rparr> \<lparr>arrays = [Some [Some (5::nat), None]], reads = []\<rparr> = Some (v', m') \<and> size_v v' \<le> capacity v') \<and>
   (\<exists>v' m'. push_back \<lparr>sz = 1, max_sz = 2, values_ptr = Ptr 0 0\<rparr> (Object 7) \<lparr>arrays = [Some [Some (5::nat), None]], reads = []\<rparr> = Some (v', m') \<and> size_v v' \<le> capacity v') \<and>
   (\<exists>r v' m'. pop_back \<lparr>sz = 1, max_sz = 2, values_ptr = Ptr 0 0\<rparr> \<lparr>arrays = [Some [Some (5::nat), None]], reads = []\<rparr> = (r, v', m') \<and> size_v v' \<le> capacity v') \<and>
   (\<exists>r v' m'. insert_v \<lparr>sz = 1, max_sz = 2, values_ptr = Ptr 0 0\<rparr> (ConstIterator (Ptr 0 0)) (Object 7) \<lparr>arrays = [Some [Some (5::nat), None]], reads = []\<rparr> = Some (r, v', m') \<and>
      size_v v' \<le> capacity v') \<and>
   (\<exists>r v' m'. erase \<lparr>sz = 1, max_sz = 2, values_ptr = Ptr 0 0\<rparr> (ConstIterator (Ptr 0 0)) \<lparr>arrays = [Some [Some (5::nat), None]], reads = []\<rparr> = Some (r, v', m') \<and>
      size_v v' \<le> capacity v') \<and>
   (\<exists>v' m'. reserve \<lparr>sz = 1, max_sz = 2, values_ptr = Ptr 0 0\<rparr> 3 \<lparr>arrays = [Some [Some (5::nat), None]], reads = []\<rparr> = Some (v', m') \<and> size_v v' \<le> capacity v') \<and>
   (\<exists>v' m'. shrink_to_fit \<lparr>sz = 1, max_sz = 2, values_ptr = Ptr 0 0\<rparr> \<lparr>arrays = [Some [Some (5::nat), None]], reads = []\<rparr> = Some (v', m') \<and> size_v v' \<le> capacity v')"
proof -
  let ?v = "\<lparr>sz = 1, max_sz = 2, values_ptr = Ptr 0 0\<rparr>"
  let ?m = "\<lparr>arrays = [Some [Some (5::nat), None]], reads = []\<rparr>"
  have h: "size_v ?v \<le> capacity ?v"
    by (simp add: size_v_def capacity_def)
  note t = size_le_capacity [where v = ?v and m = ?m and el = "Object 7" and val = "Object 7"
      and n = 3 and il = "[1, 2]"
      and pos = "ConstIterator (Ptr 0 0)"]
  have e1: "Vector_n 3 ?m = (\<lparr>sz = 0, max_sz = 3, values_ptr = Ptr 1 0\<rparr>,
      \<lparr>arrays = [Some [Some 5, None], Some [None, None, None]], reads = []\<rparr>)"
    by code_simp
  have e2: "Vector_il [1, 2] ?m = Some (\<lparr>sz = 2, max_sz = 2, values_ptr = Ptr 1 0\<rparr>,
      \<lparr>arrays = [Some [Some 5, None], Some [Some 1, Some 2]], reads = []\<rparr>)"
    by code_simp
  have e3: "Vector_copy ?v ?m = Some (\<lparr>sz = 1, max_sz = 2, values_ptr = Ptr 1 0\<rparr>,
      \<lparr>arrays = [Some [Some 5, None], Some [Some 5, None]], reads = [(0, 0)]\<rparr>)"
    by code_simp
  have e4: "assign Vector_default ?v ?m = Some (\<lparr>sz = 1, max_sz = 2, values_ptr = Ptr 1 0\<rparr>,
      \<lparr>arrays = [Some [Some 5, None], Some [Some 5, None]], reads = [(0, 0)]\<rparr>)"
    by code_simp
  have e5: "push_back ?v (Object 7) ?m = Some (\<lparr>sz = 2, max_sz = 2, values_ptr = Ptr 0 0\<rparr>,
      \<lparr>arrays = [Some [Some 5, Some 7]], reads = []\<rparr>)"
    by code_simp
  have e6: "pop_back ?v ?m = (Inr (), \<lparr>sz = 0, max_sz = 2, values_ptr = Ptr 0 0\<rparr>,
      \<lparr>arrays = [Some [Some 5, None]], reads = []\<rparr>)"
    by code_simp
  have e7: "insert_v ?v (ConstIterator (Ptr 0 0)) (Object 7) ?m =
      Some (Inr (Iterator (Ptr 0 0)), \<lparr>sz = 2, max_sz = 2, values_ptr = Ptr 0 0\<rparr>,
        \<lparr>arrays = [Some [Some 7, Some 5]], reads = [(0, 0)]\<rparr>)"
    by code_simp
  have e8: "erase ?v (ConstIterator (Ptr 0 0)) ?m =
      Some (Inr (Iterator (Ptr 0 0)), \<lparr>sz = 0, max_sz = 2, values_ptr = Ptr 0 0\<rparr>,
        \<lparr>arrays = [Some [None, None]], reads = [(0, 1)]\<rparr>)"
    by code_simp
  have e9: "reserve ?v 3 ?m = Some (\<lparr>sz = 1, max_sz = 3, values_ptr = Ptr 1 0\<rparr>,
      \<lparr>arrays = [None, Some [Some 5, None, None]], reads = [(0, 0)]\<rparr>)"
    by code_simp
  have e10: "shrink_to_fit ?v ?m = Some (\<lparr>sz = 1, max_sz = 1, values_ptr = Ptr 1 0\<rparr>,
      \<lparr>arrays = [None, Some [Some 5]], reads = [(0, 0)]\<rparr>)"
    by code_simp
  show ?thesis
    using t h unfolding e1 e2 e3 e4 e5 e6 e7 e8 e9 e10 by simp
qed

text \<open>
  C4. The claim is that no operation reads a slot at an offset at or beyond the size.
  \<^verbatim>\<open>erase\<close> does: on a valid container, erasing at any offset \<open>k < size\<close> returns, and
  the location at offset \<open>size\<close> of the container's array is among those read. With size
  below capacity it is a slot beyond the elements; with size equal to capacity it is one
  past the end of the array.
\<close>

theorem erase_reads_slot_at_size:
  assumes "valid v m"
    "const_iterator_minus pos (to_const_iterator (begin_v v)) = Some (int k)"
    "k < size_v v" "values_ptr v = Ptr b 0"
  shows "\<exists>r v' m'. erase v pos m = Some (Inr r, v', m') \<and> (b, size_v v) \<in> set (reads m')"
proof -
  obtain buf where a: "lookup m b = Some buf" "length buf = max_sz v" "sz v \<le> max_sz v"
    using assms(1,4) by (cases rule: valid_cases) auto
  obtain m' where l: "erase_loop k (sz v) (Ptr b 0) m = Some m'" "(b, sz v) \<in> set (reads m')"
    using erase_loop_reads_end [OF a(1), of "sz v" k] assms(3) a(2,3)
    by (auto simp: size_v_def)
  have "erase v pos m = Some (Inr (Iterator (Ptr b k)), v\<lparr>sz := sz v - 1\<rparr>, m')"
    unfolding erase_def using assms(2,3,4) l(1)
    by (simp add: ptr_add_def size_v_def)
  then show ?thesis
    using l(2) by (simp add: size_v_def)
qed

theorem erase_reads_slot_at_size_witness:
  "push_back_all Vector_default [Object 1, Object 2, Object (3::nat)] \<lparr>arrays = [], reads = []\<rparr> =
     Some (\<lparr>sz = 3, max_sz = 4, values_ptr = Ptr 2 0\<rparr>,
       \<lparr>arrays = [None, None, Some [Some 1, Some 2, Some 3, None]],
         reads = [(1, 1), (1, 0), (0, 0)]\<rparr>) \<and>
   size_v \<lparr>sz = 3, max_sz = 4, values_ptr = Ptr 2 0\<rparr> = 3 \<and>
   erase \<lparr>sz = 3, max_sz = 4, values_ptr = Ptr 2 0\<rparr>
       (to_const_iterator (begin_v \<lparr>sz = 3, max_sz = 4, values_ptr = Ptr 2 0\<rparr>))
       \<lparr>arrays = [None, None, Some [Some 1, Some 2, Some (3::nat), None]],
         reads = [(1, 1), (1, 0), (0, 0)]\<rparr> =
     Some (Inr (Iterator (Ptr 2 0)), \<lparr>sz = 2, max_sz = 4, values_ptr = Ptr 2 0\<rparr>,
       \<lparr>arrays = [None, None, Some [Some 2, Some 3, None, None]],
         reads = [(2, 3), (2, 2), (2, 1), (1, 1), (1, 0), (0, 0)]\<rparr>) \<and>
   (2, 3) \<in> set [(2, 3), (2, 2), (2, 1), (1, 1), (1, 0), (0::nat, 0::nat)]"
proof -
  let ?v = "\<lparr>sz = 3, max_sz = 4, values_ptr = Ptr 2 0\<rparr>"
  let ?m = "\<lparr>arrays = [None, None, Some [Some 1, Some 2, Some (3::nat), None]],
         reads = [(1, 1), (1, 0), (0, 0)]\<rparr>"
  have p: "push_back_all Vector_default [Object 1, Object 2, Object (3::nat)] \<lparr>arrays = [], reads = []\<rparr> =
      Some (?v, ?m)"
    by code_simp
  have e: "erase ?v (to_const_iterator (begin_v ?v)) ?m =
     Some (Inr (Iterator (Ptr 2 0)), \<lparr>sz = 2, max_sz = 4, values_ptr = Ptr 2 0\<rparr>,
       \<lparr>arrays = [None, None, Some [Some 2, Some 3, None, None]],
         reads = [(2, 3), (2, 2), (2, 1), (1, 1), (1, 0), (0, 0)]\<rparr>)"
    by code_simp
  have a: "valid ?v ?m"
    by (simp add: valid_def lookup_def)
  have b: "const_iterator_minus (to_const_iterator (begin_v ?v)) (to_const_iterator (begin_v ?v)) =
      Some (int 0)"
    by (simp add: const_iterator_minus_def to_const_iterator_def begin_v_def ptr_diff_def)
  have c: "0 < size_v ?v" "values_ptr ?v = Ptr 2 0"
    by (simp_all add: size_v_def)
  show ?thesis
    using erase_reads_slot_at_size [OF a b c] p unfolding e by (simp add: size_v_def)
qed

text \<open>
  C5. \<^verbatim>\<open>pop_back\<close> throws exactly when the size is 0, and what it throws is the
  "Vector is empty" error; otherwise it decrements the size by 1 and leaves the capacity,
  the array and the store as they are. Indexed access throws exactly when the index is at
  least the size, and what it throws is the "Vector out of bounds" error; in particular
  indexed access at index \<^verbatim>\<open>size()\<close> throws for every container.
\<close>

theorem pop_back_and_subscript_errors:
  "((\<exists>e s. pop_back v m = (Inl e, s)) = (size_v v = 0)) \<and>
   (size_v v = 0 \<longrightarrow> pop_back v m = (Inl EmptyContainerError, v, m)) \<and>
   (size_v v \<noteq> 0 \<longrightarrow> pop_back v m = (Inr (), v\<lparr>sz := sz v - 1\<rparr>, m)) \<and>
   ((\<exists>e s. subscript v i m = Some (Inl e, s)) = (i \<ge> size_v v)) \<and>
   (i \<ge> size_v v \<longrightarrow> subscript v i m = Some (Inl OutOfBoundsError, v, m)) \<and>
   subscript v (size_v v) m = Some (Inl OutOfBoundsError, v, m)"
  unfolding size_v_def pop_back_throws subscript_throws
  by (simp add: pop_back_def subscript_def)

theorem pop_back_and_subscript_errors_witness:
  "pop_back Vector_default \<lparr>arrays = [], reads = []\<rparr> =
     (Inl EmptyContainerError, Vector_default, \<lparr>arrays = [], reads = []\<rparr> :: nat mem) \<and>
   pop_back \<lparr>sz = 2, max_sz = 2, values_ptr = Ptr 0 0\<rparr>
       \<lparr>arrays = [Some [Some 4, Some (5::nat)]], reads = []\<rparr> =
     (Inr (), \<lparr>sz = 1, max_sz = 2, values_ptr = Ptr 0 0\<rparr>,
      \<lparr>arrays = [Some [Some 4, Some 5]], reads = []\<rparr>) \<and>
   subscript \<lparr>sz = 2, max_sz = 2, values_ptr = Ptr 0 0\<rparr> 2
       \<lparr>arrays = [Some [Some 4, Some (5::nat)]], reads = []\<rparr> =
     Some (Inl OutOfBoundsError, \<lparr>sz = 2, max_sz = 2, values_ptr = Ptr 0 0\<rparr>,
       \<lparr>arrays = [Some [Some 4, Some 5]], reads = []\<rparr>)"
  using pop_back_and_subscript_errors
      [of Vector_default "\<lparr>arrays = [], reads = []\<rparr> :: nat mem" 0]
    pop_back_and_subscript_errors
      [of "\<lparr>sz = 2, max_sz = 2, values_ptr = Ptr 0 0\<rparr>"
        "\<lparr>arrays = [Some [Some 4, Some (5::nat)]], reads = []\<rparr>" 2]
  by (simp add: size_v_def Vector_default_def)

text \<open>
  C6. A call to \<^verbatim>\<open>pop_back\<close>, indexed access, \<^verbatim>\<open>insert\<close> or \<^verbatim>\<open>erase\<close> that throws leaves
  the container (size, capacity, array) and the whole store, hence the stored elements,
  exactly as they were before the call.
\<close>

theorem rejected_call_leaves_state:
  "(pop_back v m = (Inl e, v', m') \<longrightarrow> v' = v \<and> m' = m) \<and>
   (subscript v i m = Some (Inl e, v', m') \<longrightarrow> v' = v \<and> m' = m) \<and>
   (insert_v v pos val m = Some (Inl e, v', m') \<longrightarrow> v' = v \<and> m' = m) \<and>
   (erase v pos m = Some (Inl e, v', m') \<longrightarrow> v' = v \<and> m' = m)"
proof (intro conjI impI)
  assume "pop_back v m = (Inl e, v', m')"
  then show "v' = v" "m' = m"
    by (auto simp: pop_back_def split: if_splits)
next
  assume a: "subscript v i m = Some (Inl e, v', m')"
  show "v' = v" "m' = m"
    using subscript_throws_state [OF a] by simp_all
next
  assume a: "insert_v v pos val m = Some (Inl e, v', m')"
  show "v' = v" "m' = m"
    using insert_v_throws [OF a] by simp_all
next
  assume a: "erase v pos m = Some (Inl e, v', m')"
  show "v' = v" "m' = m"
    using erase_throws [OF a] by simp_all
qed

theorem rejected_call_leaves_state_witness:
  "pop_back \<lparr>sz = 0, max_sz = 2, values_ptr = Ptr 0 0\<rparr>
       \<lparr>arrays = [Some [Some 4, Some (5::nat)]], reads = []\<rparr> =
     (Inl EmptyContainerError, \<lparr>sz = 0, max_sz = 2, values_ptr = Ptr 0 0\<rparr>,
       \<lparr>arrays = [Some [Some 4, Some 5]], reads = []\<rparr>) \<and>
   subscript \<lparr>sz = 0, max_sz = 2, values_ptr = Ptr 0 0\<rparr> 0
       \<lparr>arrays = [Some [Some 4, Some (5::nat)]], reads = []\<rparr> =
     Some (Inl OutOfBoundsError, \<lparr>sz = 0, max_sz = 2, values_ptr = Ptr 0 0\<rparr>,
       \<lparr>arrays = [Some [Some 4, Some 5]], reads = []\<rparr>) \<and>
   insert_v \<lparr>sz = 0, max_sz = 2, values_ptr = Ptr 0 0\<rparr> (ConstIterator (Ptr 0 1)) (Object 6)
       \<lparr>arrays = [Some [Some 4, Some (5::nat)]], reads = []\<rparr> =
     Some (Inl IteratorOutOfBoundsError, \<lparr>sz = 0, max_sz = 2, values_ptr = Ptr 0 0\<rparr>,
       \<lparr>arrays = [Some [Some 4, Some 5]], reads = []\<rparr>) \<and>
   erase \<lparr>sz = 0, max_sz = 2, values_ptr = Ptr 0 0\<rparr> (ConstIterator (Ptr 0 1))
       \<lparr>arrays = [Some [Some 4, Some (5::nat)]], reads = []\<rparr> =
     Some (Inl IteratorOutOfBoundsError, \<lparr>sz = 0, max_sz = 2, values_ptr = Ptr 0 0\<rparr>,
       \<lparr>arrays = [Some [Some 4, Some 5]], reads = []\<rparr>)"
  using rejected_call_leaves_state
      [where v = "\<lparr>sz = 0, max_sz = 2, values_ptr = Ptr 0 0\<rparr>"
        and m = "\<lparr>arrays = [Some [Some 4, Some (5::nat)]], reads = []\<rparr>"
        and e = IteratorOutOfBoundsError
        and v' = "\<lparr>sz = 0, max_sz = 2, values_ptr = Ptr 0 0\<rparr>"
        and m' = "\<lparr>arrays = [Some [Some 4, Some (5::nat)]], reads = []\<rparr>"
        and i = 0 and pos = "ConstIterator (Ptr 0 1)" and val = "Object 6"]
  by (simp add: pop_back_def subscript_def insert_v_def erase_def const_iterator_minus_def
      to_const_iterator_def begin_v_def ptr_diff_def)

text \<open>
  C7. On a valid container, \<^verbatim>\<open>insert\<close> at a position whose offset from \<^verbatim>\<open>begin()\<close> is
  some \<open>k \<le> size\<close> returns, for any reference and whether or not it reallocates, the
  iterator \<^verbatim>\<open>values + k\<close> of the container after the call: it is the new \<^verbatim>\<open>begin()\<close>
  incremented \<open>k\<close> times, its difference from the new \<^verbatim>\<open>begin()\<close> is \<open>k\<close>, and
  dereferencing it yields the element at offset \<open>k\<close> of the new contents, the one the
  call wrote: the value of the argument when the argument is an object outside the
  container.
\<close>

theorem insert_returns_position:
  assumes "valid v m"
    "const_iterator_minus pos (to_const_iterator (begin_v v)) = Some (int k)"
    "k \<le> size_v v"
  shows "\<exists>r v' m' x m''. insert_v v pos val m = Some (Inr r, v', m') \<and>
           r = (iterator_pre_inc ^^ k) (begin_v v') \<and>
           iterator_ptr r = ptr_add (values_ptr v') k \<and>
           const_iterator_minus (to_const_iterator r) (to_const_iterator (begin_v v')) =
             Some (int k) \<and>
           iterator_deref r m' = Some (x, m'') \<and> x = contents v' m' ! k \<and>
           (\<forall>y. val = Object y \<longrightarrow> x = Some y)"
proof -
  have k: "k \<le> sz v"
    using assms(3) by (simp add: size_v_def)
  obtain v' m' x where i:
    "insert_v v pos val m = Some (Inr (Iterator (ptr_add (values_ptr v') k)), v', m')"
    "valid v' m'"
    "contents v' m' = take k (contents v m) @ x # drop k (contents v m)"
    "\<forall>y. val = Object y \<longrightarrow> x = Some y" "sz v' = Suc (sz v)"
    using insert_ok [OF assms(1,2) k, of val] by blast
  define r where "r = Iterator (ptr_add (values_ptr v') k)"
  have "k < sz v'"
    using k i(5) by simp
  then obtain m'' where "load (ptr_add (values_ptr v') k) 0 m' = Some (contents v' m' ! k, m'')"
    using deref_at_offset [OF i(2)] by blast
  then have d: "iterator_deref r m' = Some (contents v' m' ! k, m'')"
    by (simp add: iterator_deref_def r_def)
  have c: "contents v' m' ! k = x"
    using k length_contents [OF assms(1)] by (simp add: i(3) nth_append)
  have a: "r = (iterator_pre_inc ^^ k) (begin_v v')"
    by (simp add: r_def begin_v_def advance_begin)
  obtain b where b: "values_ptr v' = Ptr b 0"
    using i(2) \<open>k < sz v'\<close> by (cases rule: valid_cases) auto
  have m: "const_iterator_minus (to_const_iterator r) (to_const_iterator (begin_v v')) =
      Some (int k)"
    using b
    by (simp add: r_def const_iterator_minus_def to_const_iterator_def begin_v_def ptr_diff_def
        ptr_add_def)
  have "insert_v v pos val m = Some (Inr r, v', m')"
    using i(1) by (simp add: r_def)
  moreover have "iterator_ptr r = ptr_add (values_ptr v') k"
    by (simp add: r_def)
  ultimately show ?thesis
    using a m d c i(4) by blast
qed

theorem insert_returns_position_witness:
  "insert_v \<lparr>sz = 2, max_sz = 3, values_ptr = Ptr 0 0\<rparr> (ConstIterator (Ptr 0 0)) (Element 0 1)
        \<lparr>arrays = [Some [Some 1, Some (2::nat), None]], reads = []\<rparr> =
      Some (Inr (Iterator (Ptr 0 0)), \<lparr>sz = 3, max_sz = 3, values_ptr = Ptr 0 0\<rparr>,
        \<lparr>arrays = [Some [Some 1, Some 1, Some 2]], reads = [(0, 1), (0, 0), (0, 1)]\<rparr>) \<and>
   Iterator (Ptr 0 0) = (iterator_pre_inc ^^ 0) (begin_v \<lparr>sz = 3, max_sz = 3, values_ptr = Ptr 0 0\<rparr>) \<and>
   const_iterator_minus (to_const_iterator (Iterator (Ptr 0 0)))
     (to_const_iterator (begin_v \<lparr>sz = 3, max_sz = 3, values_ptr = Ptr 0 0\<rparr>)) = Some 0 \<and>
   iterator_deref (Iterator (Ptr 0 0))
      \<lparr>arrays = [Some [Some 1, Some 1, Some (2::nat)]], reads = [(0, 1), (0, 0), (0, 1)]\<rparr> =
      Some (Some 1, \<lparr>arrays = [Some [Some 1, Some 1, Some 2]],
        reads = [(0, 0), (0, 1), (0, 0), (0, 1)]\<rparr>)"
proof -
  let ?v = "\<lparr>sz = 2, max_sz = 3, values_ptr = Ptr 0 0\<rparr>"
  let ?m = "\<lparr>arrays = [Some [Some 1, Some (2::nat), None]], reads = []\<rparr>"
  have a: "valid ?v ?m"
    by (simp add: valid_def lookup_def)
  have b: "const_iterator_minus (ConstIterator (Ptr 0 0)) (to_const_iterator (begin_v ?v)) =
      Some (int 0)"
    by (simp add: const_iterator_minus_def to_const_iterator_def begin_v_def ptr_diff_def)
  have c: "0 \<le> size_v ?v"
    by simp
  have e: "insert_v ?v (ConstIterator (Ptr 0 0)) (Element 0 1) ?m =
      Some (Inr (Iterator (Ptr 0 0)), \<lparr>sz = 3, max_sz = 3, values_ptr = Ptr 0 0\<rparr>,
        \<lparr>arrays = [Some [Some 1, Some 1, Some 2]], reads = [(0, 1), (0, 0), (0, 1)]\<rparr>)"
    by code_simp
  have d: "iterator_deref (Iterator (Ptr 0 0))
      \<lparr>arrays = [Some [Some 1, Some 1, Some (2::nat)]], reads = [(0, 1), (0, 0), (0, 1)]\<rparr> =
      Some (Some 1, \<lparr>arrays = [Some [Some 1, Some 1, Some 2]],
        reads = [(0, 0), (0, 1), (0, 0), (0, 1)]\<rparr>)"
    by code_simp
  have f: "Iterator (Ptr 0 0) =
      (iterator_pre_inc ^^ 0) (begin_v \<lparr>sz = 3, max_sz = 3, values_ptr = Ptr 0 0\<rparr>)"
    "const_iterator_minus (to_const_iterator (Iterator (Ptr 0 0)))
       (to_const_iterator (begin_v \<lparr>sz = 3, max_sz = 3, values_ptr = Ptr 0 0\<rparr>)) = Some 0"
    by (simp_all add: begin_v_def const_iterator_minus_def to_const_iterator_def ptr_diff_def)
  show ?thesis
    using insert_returns_position [OF a b c, of "Element 0 1"] e d f by simp
qed

text \<open>
  C8. On a valid container, \<^verbatim>\<open>erase\<close> at a position whose offset from \<^verbatim>\<open>begin()\<close> is
  some \<open>k < size\<close>, followed by \<^verbatim>\<open>insert\<close> at the same position of the value \<open>x\<close> that
  was at offset \<open>k\<close>, returns both times and leaves the size and the elements as they
  were before the erase. This includes a container whose size equals its capacity: the
  garbage that \<^verbatim>\<open>erase\<close> reads one past the end of the array (C4) lands in the slot the
  decrement of the size drops, and \<^verbatim>\<open>insert\<close> overwrites it.
\<close>

theorem erase_then_insert_restores:
  assumes "valid v m"
    "const_iterator_minus pos (to_const_iterator (begin_v v)) = Some (int k)"
    "k < size_v v" "contents v m ! k = Some x"
  shows "\<exists>r1 v1 m1 r2 v2 m2. erase v pos m = Some (Inr r1, v1, m1) \<and>
           insert_v v1 pos (Object x) m1 = Some (Inr r2, v2, m2) \<and>
           size_v v2 = size_v v \<and> contents v2 m2 = contents v m"
proof -
  have k: "k < sz v"
    using assms(3) by (simp add: size_v_def)
  obtain v1 m1 where e:
    "erase v pos m = Some (Inr (Iterator (ptr_add (values_ptr v1) k)), v1, m1)" "valid v1 m1"
    "contents v1 m1 = take k (contents v m) @ drop (Suc k) (contents v m)"
    "sz v1 = sz v - 1" "values_ptr v1 = values_ptr v"
    using erase_ok [OF assms(1,2) k] by blast
  have p: "const_iterator_minus pos (to_const_iterator (begin_v v1)) = Some (int k)"
    using assms(2) e(5) by (simp add: begin_v_def)
  have k1: "k \<le> sz v1"
    using k e(4) by simp
  obtain v2 m2 y where i:
    "insert_v v1 pos (Object x) m1 = Some (Inr (Iterator (ptr_add (values_ptr v2) k)), v2, m2)"
    "contents v2 m2 = take k (contents v1 m1) @ y # drop k (contents v1 m1)"
    "\<forall>z. Object x = Object z \<longrightarrow> y = Some z" "sz v2 = Suc (sz v1)"
    using insert_ok [OF e(2) p k1, of "Object x"] by blast
  have y: "y = Some x"
    using i(3) by simp
  have l: "length (contents v m) = sz v"
    using assms(1) by (rule length_contents)
  have "contents v2 m2 = take k (contents v m) @ contents v m ! k # drop (Suc k) (contents v m)"
    using k l assms(4) by (simp add: i(2) e(3) y)
  also have "\<dots> = contents v m"
    using k l by (simp add: id_take_nth_drop [symmetric])
  finally show ?thesis
    using e(1) i(1,4) e(4) k by (auto simp: size_v_def)
qed

theorem erase_then_insert_restores_witness:
  "Vector_il [1, 2, 3 :: nat] \<lparr>arrays = [], reads = []\<rparr> =
     Some (\<lparr>sz = 3, max_sz = 3, values_ptr = Ptr 0 0\<rparr>,
       \<lparr>arrays = [Some [Some 1, Some 2, Some 3]], reads = []\<rparr>) \<and>
   erase \<lparr>sz = 3, max_sz = 3, values_ptr = Ptr 0 0\<rparr> (ConstIterator (Ptr 0 0))
       \<lparr>arrays = [Some [Some 1, Some 2, Some (3::nat)]], reads = []\<rparr> =
     Some (Inr (Iterator (Ptr 0 0)), \<lparr>sz = 2, max_sz = 3, values_ptr = Ptr 0 0\<rparr>,
       \<lparr>arrays = [Some [Some 2, Some 3, None]], reads = [(0, 3), (0, 2), (0, 1)]\<rparr>) \<and>
   insert_v \<lparr>sz = 2, max_sz = 3, values_ptr = Ptr 0 0\<rparr> (ConstIterator (Ptr 0 0)) (Object 1)
       \<lparr>arrays = [Some [Some 2, Some (3::nat), None]], reads = [(0, 3), (0, 2), (0, 1)]\<rparr> =
     Some (Inr (Iterator (Ptr 0 0)), \<lparr>sz = 3, max_sz = 3, values_ptr = Ptr 0 0\<rparr>,
       \<lparr>arrays = [Some [Some 1, Some 2, Some 3]],
         reads = [(0, 0), (0, 1), (0, 3), (0, 2), (0, 1)]\<rparr>) \<and>
   contents \<lparr>sz = 3, max_sz = 3, values_ptr = Ptr 0 0\<rparr>
       \<lparr>arrays = [Some [Some 1, Some 2, Some (3::nat)]],
         reads = [(0, 0), (0, 1), (0, 3), (0, 2), (0, 1)]\<rparr> =
     contents \<lparr>sz = 3, max_sz = 3, values_ptr = Ptr 0 0\<rparr>
       \<lparr>arrays = [Some [Some 1, Some 2, Some 3]], reads = []\<rparr>"
proof -
  let ?v = "\<lparr>sz = 3, max_sz = 3, values_ptr = Ptr 0 0\<rparr>"
  let ?m = "\<lparr>arrays = [Some [Some 1, Some 2, Some (3::nat)]], reads = []\<rparr>"
  have p: "Vector_il [1, 2, 3 :: nat] \<lparr>arrays = [], reads = []\<rparr> = Some (?v, ?m)"
    by code_simp
  have a: "valid ?v ?m"
    by (simp add: valid_def lookup_def)
  have b: "const_iterator_minus (ConstIterator (Ptr 0 0)) (to_const_iterator (begin_v ?v)) =
      Some (int 0)"
    by (simp add: const_iterator_minus_def to_const_iterator_def begin_v_def ptr_diff_def)
  have c: "0 < size_v ?v" "contents ?v ?m ! 0 = Some 1"
    by (simp_all add: size_v_def contents_def lookup_def)
  have e: "erase ?v (ConstIterator (Ptr 0 0)) ?m =
     Some (Inr (Iterator (Ptr 0 0)), \<lparr>sz = 2, max_sz = 3, values_ptr = Ptr 0 0\<rparr>,
       \<lparr>arrays = [Some [Some 2, Some 3, None]], reads = [(0, 3), (0, 2), (0, 1)]\<rparr>)"
    by code_simp
  have i: "insert_v \<lparr>sz = 2, max_sz = 3, values_ptr = Ptr 0 0\<rparr> (ConstIterator (Ptr 0 0))
       (Object 1)
       \<lparr>arrays = [Some [Some 2, Some (3::nat), None]], reads = [(0, 3), (0, 2), (0, 1)]\<rparr> =
     Some (Inr (Iterator (Ptr 0 0)), \<lparr>sz = 3, max_sz = 3, values_ptr = Ptr 0 0\<rparr>,
       \<lparr>arrays = [Some [Some 1, Some 2, Some 3]],
         reads = [(0, 0), (0, 1), (0, 3), (0, 2), (0, 1)]\<rparr>)"
    by code_simp
  have d: "contents \<lparr>sz = 3, max_sz = 3, values_ptr = Ptr 0 0\<rparr>
       \<lparr>arrays = [Some [Some 1, Some 2, Some (3::nat)]],
         reads = [(0, 0), (0, 1), (0, 3), (0, 2), (0, 1)]\<rparr> = contents ?v ?m"
    by (simp add: contents_def lookup_def)
  show ?thesis
    using erase_then_insert_restores [OF a b c] p e i d by simp
qed

text \<open>
  C9. Copy construction from a valid source returns a container with the source's size
  and elements and with the source's capacity (not its size), in an array of its own: a
  later \<^verbatim>\<open>push_back\<close> on the source, of any reference, returns and leaves the copy's
  elements as they were.
  Copy assignment to a valid container that does not own the source's array gives the
  target the same size, capacity and elements, with the same independence.
\<close>

theorem copy_is_independent:
  assumes "valid src m"
  shows "(\<exists>c m1. Vector_copy src m = Some (c, m1) \<and>
            size_v c = size_v src \<and> capacity c = capacity src \<and>
            contents c m1 = contents src m \<and>
            (\<forall>el. \<exists>src' m2 y. push_back src el m1 = Some (src', m2) \<and>
               contents src' m2 = contents src m @ [y] \<and>
               (\<forall>x. el = Object x \<longrightarrow> y = Some x) \<and>
               contents c m2 = contents src m)) \<and>
         (valid this m \<and> separate this src \<longrightarrow>
            (\<exists>t m1. assign this src m = Some (t, m1) \<and>
               size_v t = size_v src \<and> capacity t = capacity src \<and>
               contents t m1 = contents src m \<and>
               (\<forall>el. \<exists>src' m2 y. push_back src el m1 = Some (src', m2) \<and>
                  contents src' m2 = contents src m @ [y] \<and>
                  (\<forall>x. el = Object x \<longrightarrow> y = Some x) \<and>
                  contents t m2 = contents src m)))"
proof (intro conjI impI)
  define c where "c = \<lparr>sz = sz src, max_sz = max_sz src, values_ptr = Ptr (length (arrays m)) 0\<rparr>"
  obtain m1 where r: "Vector_copy src m = Some (c, m1)" "valid c m1"
    "contents c m1 = contents src m" "unchanged m m1"
    using Vector_copy_ok [OF assms] unfolding c_def by blast
  have s1: "valid src m1" "contents src m1 = contents src m"
    using r(4) assms by (rule unchanged_valid, rule unchanged_contents)
  have sep: "separate src c"
    unfolding c_def using assms by (rule separate_fresh)
  have "\<exists>src' m2 y. push_back src el m1 = Some (src', m2) \<and>
               contents src' m2 = contents src m @ [y] \<and>
               (\<forall>x. el = Object x \<longrightarrow> y = Some x) \<and>
               contents c m2 = contents src m" for el
    using push_back_elsewhere [OF s1(1) r(2) sep, of el] s1(2) r(3) by auto
  moreover have "size_v c = size_v src" "capacity c = capacity src"
    by (simp_all add: c_def size_v_def capacity_def)
  ultimately show "\<exists>c m1. Vector_copy src m = Some (c, m1) \<and>
            size_v c = size_v src \<and> capacity c = capacity src \<and>
            contents c m1 = contents src m \<and>
            (\<forall>el. \<exists>src' m2 y. push_back src el m1 = Some (src', m2) \<and>
               contents src' m2 = contents src m @ [y] \<and>
               (\<forall>x. el = Object x \<longrightarrow> y = Some x) \<and>
               contents c m2 = contents src m)"
    using r(1,3) by blast
next
  assume a: "valid this m \<and> separate this src"
  define t where "t = \<lparr>sz = sz src, max_sz = max_sz src, values_ptr = Ptr (length (arrays m)) 0\<rparr>"
  obtain m1 where r: "assign this src m = Some (t, m1)" "valid t m1"
    "contents t m1 = contents src m" "frame this m m1"
    using assign_ok [OF _ assms, of this] a unfolding t_def by blast
  have s1: "valid src m1" "contents src m1 = contents src m"
    using r(4) assms a by (auto intro: frame_valid frame_contents)
  have sep: "separate src t"
    unfolding t_def using assms by (rule separate_fresh)
  have "\<exists>src' m2 y. push_back src el m1 = Some (src', m2) \<and>
               contents src' m2 = contents src m @ [y] \<and>
               (\<forall>x. el = Object x \<longrightarrow> y = Some x) \<and>
               contents t m2 = contents src m" for el
    using push_back_elsewhere [OF s1(1) r(2) sep, of el] s1(2) r(3) by auto
  moreover have "size_v t = size_v src" "capacity t = capacity src"
    by (simp_all add: t_def size_v_def capacity_def)
  ultimately show "\<exists>t m1. assign this src m = Some (t, m1) \<and>
               size_v t = size_v src \<and> capacity t = capacity src \<and>
               contents t m1 = contents src m \<and>
               (\<forall>el. \<exists>src' m2 y. push_back src el m1 = Some (src', m2) \<and>
                  contents src' m2 = contents src m @ [y] \<and>
                  (\<forall>x. el = Object x \<longrightarrow> y = Some x) \<and>
                  contents t m2 = contents src m)"
    using r(1,3) by blast
qed

theorem copy_is_independent_witness:
  "(\<exists>c m1. Vector_copy \<lparr>sz = 2, max_sz = 3, values_ptr = Ptr 0 0\<rparr>
        \<lparr>arrays = [Some [Some 1, Some (2::nat), None]], reads = []\<rparr> = Some (c, m1) \<and>
      size_v c = 2 \<and> capacity c = 3 \<and> contents c m1 = [Some 1, Some 2] \<and>
      (\<exists>src' m2. push_back \<lparr>sz = 2, max_sz = 3, values_ptr = Ptr 0 0\<rparr> (Object 4) m1 = Some (src', m2) \<and>
         contents src' m2 = [Some 1, Some 2, Some 4] \<and> contents c m2 = [Some 1, Some 2])) \<and>
   (\<exists>t m1. assign Vector_default \<lparr>sz = 2, max_sz = 3, values_ptr = Ptr 0 0\<rparr>
        \<lparr>arrays = [Some [Some 1, Some (2::nat), None]], reads = []\<rparr> = Some (t, m1) \<and>
      size_v t = 2 \<and> capacity t = 3 \<and> contents t m1 = [Some 1, Some 2] \<and>
      (\<exists>src' m2. push_back \<lparr>sz = 2, max_sz = 3, values_ptr = Ptr 0 0\<rparr> (Object 4) m1 = Some (src', m2) \<and>
         contents src' m2 = [Some 1, Some 2, Some 4] \<and> contents t m2 = [Some 1, Some 2]))"
proof -
  let ?src = "\<lparr>sz = 2, max_sz = 3, values_ptr = Ptr 0 0\<rparr>"
  let ?m = "\<lparr>arrays = [Some [Some 1, Some (2::nat), None]], reads = []\<rparr>"
  have a: "valid ?src ?m"
    by (simp add: valid_def lookup_def)
  have b: "valid Vector_default ?m \<and> separate Vector_default ?src"
    by (simp add: valid_def separate_def Vector_default_def)
  have c: "contents ?src ?m = [Some 1, Some 2]" "size_v ?src = 2" "capacity ?src = 3"
    by (simp_all add: contents_def lookup_def size_v_def capacity_def)
  have 1: "\<exists>c m1. Vector_copy ?src ?m = Some (c, m1) \<and>
      size_v c = 2 \<and> capacity c = 3 \<and> contents c m1 = [Some 1, Some 2] \<and>
      (\<exists>src' m2. push_back ?src (Object 4) m1 = Some (src', m2) \<and>
         contents src' m2 = [Some 1, Some 2, Some 4] \<and> contents c m2 = [Some 1, Some 2])"
    using copy_is_independent [OF a, of Vector_default, THEN conjunct1] unfolding c
    by (elim exE conjE) (force dest: spec [of _ "Object 4"])
  have 2: "\<exists>t m1. assign Vector_default ?src ?m = Some (t, m1) \<and>
      size_v t = 2 \<and> capacity t = 3 \<and> contents t m1 = [Some 1, Some 2] \<and>
      (\<exists>src' m2. push_back ?src (Object 4) m1 = Some (src', m2) \<and>
         contents src' m2 = [Some 1, Some 2, Some 4] \<and> contents t m2 = [Some 1, Some 2])"
    using copy_is_independent [OF a, of Vector_default, THEN conjunct2, rule_format, OF b]
    unfolding c
    by (elim exE conjE) (force dest: spec [of _ "Object 4"])
  show ?thesis
    using 1 2 by (rule conjI)
qed

text \<open>
  C10. For every Iterator and every ConstIterator, post-increment advances the cursor by
  one position (as pre-increment does) and returns a default-constructed, null iterator
  rather than one at the old position. The claim adds that the returned value never
  compares equal to the old position; that fails for a cursor that is null itself, as a
  default-constructed one is. The returned value compares equal to the old position
  exactly when the old position is null.
\<close>

theorem post_increment_returns_null:
  "iterator_post_inc it = (iterator_default, iterator_pre_inc it) \<and>
   ptr_diff (iterator_ptr (iterator_pre_inc it)) (iterator_ptr it) = Some 1 \<and>
   iterator_ptr iterator_default = Null 0 \<and>
   iterator_eq (fst (iterator_post_inc it)) (to_const_iterator it) = (iterator_ptr it = Null 0) \<and>
   const_iterator_post_inc cit = (const_iterator_default, const_iterator_pre_inc cit) \<and>
   ptr_diff (const_iterator_ptr (const_iterator_pre_inc cit)) (const_iterator_ptr cit) = Some 1 \<and>
   const_iterator_ptr const_iterator_default = Null 0 \<and>
   const_iterator_eq (fst (const_iterator_post_inc cit)) cit = (const_iterator_ptr cit = Null 0)"
proof -
  have 1: "iterator_post_inc it = (iterator_default, iterator_pre_inc it)"
    by (simp add: iterator_post_inc_def)
  have 2: "ptr_diff (iterator_ptr (iterator_pre_inc it)) (iterator_ptr it) = Some 1"
    by (cases it; cases "iterator_ptr it")
      (simp_all add: iterator_pre_inc_def ptr_add_def ptr_diff_def)
  have 3: "iterator_ptr iterator_default = Null 0"
    by (simp add: iterator_default_def)
  have 4: "iterator_eq (fst (iterator_post_inc it)) (to_const_iterator it) =
      (iterator_ptr it = Null 0)"
    by (cases it)
      (auto simp: iterator_post_inc_def iterator_default_def iterator_eq_def
        to_const_iterator_def)
  have 5: "const_iterator_post_inc cit = (const_iterator_default, const_iterator_pre_inc cit)"
    by (simp add: const_iterator_post_inc_def)
  have 6: "ptr_diff (const_iterator_ptr (const_iterator_pre_inc cit)) (const_iterator_ptr cit) =
      Some 1"
    by (cases cit; cases "const_iterator_ptr cit")
      (simp_all add: const_iterator_pre_inc_def ptr_add_def ptr_diff_def)
  have 7: "const_iterator_ptr const_iterator_default = Null 0"
    by (simp add: const_iterator_default_def)
  have 8: "const_iterator_eq (fst (const_iterator_post_inc cit)) cit =
      (const_iterator_ptr cit = Null 0)"
    by (cases cit)
      (auto simp: const_iterator_post_inc_def const_iterator_default_def const_iterator_eq_def)
  show ?thesis
    by (rule conjI [OF 1 conjI [OF 2 conjI [OF 3 conjI [OF 4 conjI [OF 5
      conjI [OF 6 conjI [OF 7 8]]]]]]])
qed

theorem post_increment_equal_at_null:
  "iterator_post_inc iterator_default = (Iterator (Null 0), Iterator (Null 1)) \<and>
   iterator_eq (fst (iterator_post_inc iterator_default)) (to_const_iterator iterator_default) \<and>
   const_iterator_post_inc const_iterator_default =
     (ConstIterator (Null 0), ConstIterator (Null 1)) \<and>
   const_iterator_eq (fst (const_iterator_post_inc const_iterator_default))
     const_iterator_default"
  by (simp add: iterator_post_inc_def iterator_pre_inc_def iterator_default_def
      const_iterator_post_inc_def const_iterator_pre_inc_def const_iterator_default_def
      ptr_add_def iterator_eq_def const_iterator_eq_def to_const_iterator_def)

end
